theory Spec2Isabelle
  imports Complex_Main "HOL-Library.Sublist"
begin

section \<open>Data model (shared/schema.ts)\<close>

text \<open>
  JavaScript numbers that carry measurements (cpu, memory) are modelled as reals, so
  rounding of IEEE doubles is idealised away. Timestamps and sizes are integers,
  process ids and call counters are naturals.
\<close>

datatype process_status = Running | Crashed | Frozen | High_load

record process =
  pid :: nat
  pname :: string
  memory :: real
  cpu :: real
  heartbeat :: int
  status :: process_status

record system_file =
  fid :: string
  fname :: string
  fpath :: string
  fsize :: int
  checksum :: string
  corrupted :: bool
  lastModified :: int

datatype log_type = Info | Warning | Error | Success

record insert_log =
  ltype :: log_type
  event :: string
  description :: string

record log_entry = insert_log +
  lid :: string
  timestamp :: int

datatype health_status = Healthy | HWarning | Critical

record system_health =
  cpuUsage :: real
  memoryUsage :: real
  totalProcesses :: int
  healthyProcesses :: int
  faultyProcesses :: int
  totalFiles :: int
  corruptedFiles :: int
  hstatus :: health_status
  lastUpdated :: int

datatype fault_type = Crash | Freeze | HighLoad | Corruption | Missing_file

datatype severity = Low | Medium | High | SCritical

text \<open>\<^verbatim>\<open>targetId: z.union([z.number(), z.string()])\<close>\<close>

datatype target_id = NumId nat | StrId string

record fault =
  ftype :: fault_type
  ftargetId :: target_id
  ftargetName :: string
  fseverity :: severity
  fdescription :: string

record heal_result =
  success :: bool
  action :: string
  targetId :: target_id
  targetName :: string
  message :: string

section \<open>The environment: Math.random, Date.now, randomUUID\<close>

text \<open>
  \<^verbatim>\<open>Math.random()\<close> returns a number in the half-open interval from 0 to 1; a draw
  is a value of exactly that type.
\<close>

typedef draw = "{x::real. 0 \<le> x \<and> x < 1}"
  by (rule exI [of _ 0]) simp

setup_lifting type_definition_draw

lift_definition val :: "draw \<Rightarrow> real" is "\<lambda>x. x" .

lift_definition draw_of :: "real \<Rightarrow> draw" is "\<lambda>x. if 0 \<le> x \<and> x < 1 then x else 0"
  by simp

text \<open>
  The environment fixes what the n-th call of each impure primitive returns. The two
  formatting functions stand for the number-to-text conversions of template literals
  and of \<^verbatim>\<open>toFixed(1)\<close>.
\<close>

record env =
  random_at :: "nat \<Rightarrow> draw"
  now_at :: "nat \<Rightarrow> int"
  uuid_at :: "nat \<Rightarrow> string"
  num_str :: "nat \<Rightarrow> string"
  toFixed1 :: "real \<Rightarrow> string"

section \<open>MemStorage (server/storage.ts)\<close>

text \<open>
  The two \<^verbatim>\<open>Map\<close>s are association lists in insertion order, which is the order
  \<^verbatim>\<open>values()\<close> iterates in. The last three fields count the calls made so far to
  the impure primitives.
\<close>

record store =
  processes :: "(nat \<times> process) list"
  files :: "(string \<times> system_file) list"
  logs :: "log_entry list"
  initialized :: bool
  nextPid :: nat
  random_calls :: nat
  now_calls :: nat
  uuid_calls :: nat

definition Math_random :: "env \<Rightarrow> store \<Rightarrow> real \<times> store" where
  "Math_random E s =
     (val (random_at E (random_calls s)), s\<lparr>random_calls := random_calls s + 1\<rparr>)"

definition Date_now :: "env \<Rightarrow> store \<Rightarrow> int \<times> store" where
  "Date_now E s = (now_at E (now_calls s), s\<lparr>now_calls := now_calls s + 1\<rparr>)"

definition randomUUID :: "env \<Rightarrow> store \<Rightarrow> string \<times> store" where
  "randomUUID E s = (uuid_at E (uuid_calls s), s\<lparr>uuid_calls := uuid_calls s + 1\<rparr>)"

text \<open>\<^verbatim>\<open>randomUUID().replace(/-/g, "").slice(0, 32)\<close>\<close>

definition generateChecksum :: "env \<Rightarrow> store \<Rightarrow> string \<times> store" where
  "generateChecksum E s =
     (case randomUUID E s of (u, s') \<Rightarrow> (take 32 (filter (\<lambda>c. c \<noteq> CHR ''-'') u), s'))"

text \<open>\<^verbatim>\<open>Math.random() * (max - min) + min\<close>\<close>

definition randomBetween :: "env \<Rightarrow> real \<Rightarrow> real \<Rightarrow> store \<Rightarrow> real \<times> store" where
  "randomBetween E lo hi s =
     (case Math_random E s of (r, s') \<Rightarrow> (r * (hi - lo) + lo, s'))"

text \<open>\<^verbatim>\<open>Math.floor(Math.random() * n)\<close>, the index drawn into a pool of n elements.\<close>

definition randomIndex :: "env \<Rightarrow> nat \<Rightarrow> store \<Rightarrow> nat \<times> store" where
  "randomIndex E n s =
     (case Math_random E s of (r, s') \<Rightarrow> (nat \<lfloor>r * real n\<rfloor>, s'))"

subsection \<open>Reading the collections\<close>

definition getProcesses :: "store \<Rightarrow> process list" where
  "getProcesses s = map snd (processes s)"

definition getFiles :: "store \<Rightarrow> system_file list" where
  "getFiles s = map snd (files s)"

text \<open>\<^verbatim>\<open>this.logs.slice(-50).reverse()\<close>\<close>

definition getLogs :: "store \<Rightarrow> log_entry list" where
  "getLogs s = rev (drop (length (logs s) - 50) (logs s))"

subsection \<open>addLog\<close>

definition addLog :: "env \<Rightarrow> insert_log \<Rightarrow> store \<Rightarrow> log_entry \<times> store" where
  "addLog E l s =
     (case randomUUID E s of (u, s1) \<Rightarrow>
      case Date_now E s1 of (t, s2) \<Rightarrow>
        let entry = \<lparr>ltype = ltype l, event = event l, description = description l,
                      lid = u, timestamp = t\<rparr>;
            pushed = logs s2 @ [entry];
            kept = (if length pushed > 100 then drop (length pushed - 100) pushed
                    else pushed)
        in (entry, s2\<lparr>logs := kept\<rparr>))"

subsection \<open>getHealth\<close>

definition getHealth :: "env \<Rightarrow> store \<Rightarrow> system_health \<times> store" where
  "getHealth E s =
     (let procs = getProcesses s;
          fs = getFiles s;
          total = int (length procs);
          healthy = int (length (filter (\<lambda>p. status p = Running) procs));
          faulty = total - healthy;
          corrupt = int (length (filter corrupted fs));
          avgCpu = (if length procs > 0
                    then foldl (\<lambda>sum p. sum + cpu p) 0 procs / real (length procs)
                    else 0);
          avgMemory = (if length procs > 0
                       then foldl (\<lambda>sum p. sum + memory p) 0 procs / (real (length procs) * 10)
                       else 0);
          st = (if faulty > 2 \<or> corrupt > 2 \<or> avgCpu > 80 then Critical
                else if faulty > 0 \<or> corrupt > 0 \<or> avgCpu > 60 then HWarning
                else Healthy)
      in case Date_now E s of (t, s') \<Rightarrow>
        (\<lparr>cpuUsage = min 100 avgCpu, memoryUsage = min 100 avgMemory,
          totalProcesses = total, healthyProcesses = healthy, faultyProcesses = faulty,
          totalFiles = int (length fs), corruptedFiles = corrupt, hstatus = st,
          lastUpdated = t\<rparr>, s'))"

subsection \<open>repairFile\<close>

text \<open>
  A file object is mutated in place, so the entry under the looked-up key is replaced
  where it stands.
\<close>

fun map_entry_at :: "'k \<Rightarrow> ('v \<Rightarrow> 'v) \<Rightarrow> ('k \<times> 'v) list \<Rightarrow> ('k \<times> 'v) list" where
  "map_entry_at k f [] = []"
| "map_entry_at k f ((k', v) # m) =
     (if k' = k then (k', f v) # m else (k', v) # map_entry_at k f m)"

definition repairFile :: "env \<Rightarrow> string \<Rightarrow> store \<Rightarrow> heal_result \<times> store" where
  "repairFile E fileId s =
     (case map_of (files s) fileId of
        None \<Rightarrow>
          (\<lparr>success = False, action = ''repair'', targetId = StrId fileId,
            targetName = ''Unknown'', message = ''File not found.''\<rparr>, s)
      | Some file \<Rightarrow>
          if \<not> corrupted file then
            (\<lparr>success = False, action = ''repair'', targetId = StrId fileId,
              targetName = fname file, message = ''File is not corrupted.''\<rparr>, s)
          else
            case generateChecksum E s of (c, s1) \<Rightarrow>
            case Date_now E s1 of (t, s2) \<Rightarrow>
              let file' = file\<lparr>corrupted := False, checksum := c, lastModified := t\<rparr>;
                  s3 = s2\<lparr>files := map_entry_at fileId (\<lambda>_. file') (files s2)\<rparr>
              in case addLog E
                   \<lparr>ltype = Success, event = ''File Repaired'',
                    description = ''Successfully repaired file '' @ fname file' @ '' at ''
                      @ fpath file' @ ''. New checksum generated.''\<rparr> s3 of
                 (_, s4) \<Rightarrow>
                   (\<lparr>success = True, action = ''repair'', targetId = StrId fileId,
                     targetName = fname file',
                     message = ''File '' @ fname file' @ '' has been successfully repaired.''\<rparr>,
                    s4))"

subsection \<open>Loops over the entities\<close>

text \<open>
  \<^verbatim>\<open>for (const x of values) body\<close>: the body may mutate the object it visits and
  the ambient context (log buffer, call counters, result list). The entities never read
  each other and the bodies never read the collection being traversed, so the mutated
  collection can be written back to the store once the pass is over.
\<close>

fun for_each :: "('v \<Rightarrow> 'c \<Rightarrow> 'v \<times> 'c) \<Rightarrow> ('k \<times> 'v) list \<Rightarrow> 'c \<Rightarrow> ('k \<times> 'v) list \<times> 'c" where
  "for_each body [] c = ([], c)"
| "for_each body ((k, v) # m) c =
     (case body v c of (v', c') \<Rightarrow>
      case for_each body m c' of (m', c'') \<Rightarrow> ((k, v') # m', c''))"

text \<open>
  \<^verbatim>\<open>const target = values.filter(P)[i]; target.field = ...\<close>: the array holds
  references, so the assignments \<open>f\<close> land on the i-th object of the collection that
  satisfies P, where it stands.
\<close>

fun update_kth :: "('v \<Rightarrow> bool) \<Rightarrow> nat \<Rightarrow> ('v \<Rightarrow> 'v) \<Rightarrow> ('k \<times> 'v) list \<Rightarrow> ('k \<times> 'v) list" where
  "update_kth P i f [] = []"
| "update_kth P i f ((k, v) # m) =
     (if P v then (case i of 0 \<Rightarrow> (k, f v) # m | Suc j \<Rightarrow> (k, v) # update_kth P j f m)
      else (k, v) # update_kth P i f m)"

text \<open>\<^verbatim>\<open>Map.prototype.set\<close>: an existing key keeps its position, a new key is appended.\<close>

fun map_set :: "'k \<Rightarrow> 'v \<Rightarrow> ('k \<times> 'v) list \<Rightarrow> ('k \<times> 'v) list" where
  "map_set k v [] = [(k, v)]"
| "map_set k v ((k', v') # m) =
     (if k' = k then (k, v) # m else (k', v') # map_set k v m)"

subsection \<open>initializeSystem\<close>

definition PROCESS_NAMES :: "string list" where
  "PROCESS_NAMES =
     [''kernel_scheduler'', ''memory_manager'', ''file_system_watcher'', ''network_handler'',
      ''user_session_manager'', ''security_monitor'', ''log_collector'', ''backup_service'',
      ''cache_manager'', ''disk_io_handler'']"

definition FILE_TEMPLATES :: "(string \<times> string \<times> int) list" where
  "FILE_TEMPLATES =
     [(''config.json'', ''/etc/system/config.json'', 2048),
      (''kernel.log'', ''/var/log/kernel.log'', 45000),
      (''auth.db'', ''/var/data/auth.db'', 128000),
      (''cache.dat'', ''/tmp/cache.dat'', 65536),
      (''network.conf'', ''/etc/network/network.conf'', 1024),
      (''security.key'', ''/etc/security/security.key'', 512),
      (''backup.tar'', ''/var/backup/backup.tar'', 256000),
      (''users.json'', ''/etc/users/users.json'', 4096)]"

definition initProcess :: "env \<Rightarrow> nat \<Rightarrow> store \<Rightarrow> store" where
  "initProcess E i s =
     (let p = nextPid s; s0 = s\<lparr>nextPid := p + 1\<rparr> in
      case randomBetween E 50 500 s0 of (m, s1) \<Rightarrow>
      case randomBetween E 1 30 s1 of (c, s2) \<Rightarrow>
      case Date_now E s2 of (t, s3) \<Rightarrow>
        s3\<lparr>processes :=
             map_set p \<lparr>pid = p, pname = PROCESS_NAMES ! (i mod length PROCESS_NAMES),
                        memory = m, cpu = c, heartbeat = t, status = Running\<rparr>
               (processes s3)\<rparr>)"

definition initFile :: "env \<Rightarrow> string \<times> string \<times> int \<Rightarrow> store \<Rightarrow> store" where
  "initFile E template s =
     (case template of (nm, pth, sz) \<Rightarrow>
      case randomUUID E s of (i, s1) \<Rightarrow>
      case generateChecksum E s1 of (c, s2) \<Rightarrow>
      case Date_now E s2 of (t, s3) \<Rightarrow>
      case Math_random E s3 of (r, s4) \<Rightarrow>
        s4\<lparr>files :=
             map_set i \<lparr>fid = i, fname = nm, fpath = pth, fsize = sz, checksum = c,
                        corrupted = False, lastModified = t - \<lfloor>r * 86400000\<rfloor>\<rparr>
               (files s4)\<rparr>)"

text \<open>
  \<^verbatim>\<open>startSimulation\<close> only registers the timer whose callback is \<open>driftTick\<close> below;
  registering it changes nothing in the store.
\<close>

definition initializeSystem :: "env \<Rightarrow> store \<Rightarrow> store" where
  "initializeSystem E s =
     (if initialized s then s
      else
        let s1 = fold (initProcess E) [0..<6] s;
            s2 = fold (initFile E) FILE_TEMPLATES s1
        in case addLog E
             \<lparr>ltype = Info, event = ''System Initialized'',
              description = ''Self-Healing OS Simulator started successfully. All systems operational.''\<rparr>
             s2 of
           (_, s3) \<Rightarrow> s3\<lparr>initialized := True\<rparr>)"

text \<open>The constructor: empty collections, then \<^verbatim>\<open>this.initializeSystem()\<close>.\<close>

definition MemStorage :: "env \<Rightarrow> store" where
  "MemStorage E =
     initializeSystem E
       \<lparr>processes = [], files = [], logs = [], initialized = False, nextPid = 1001,
        random_calls = 0, now_calls = 0, uuid_calls = 0\<rparr>"

subsection \<open>The drift tick (the callback of startSimulation)\<close>

definition driftProcess :: "env \<Rightarrow> process \<Rightarrow> store \<Rightarrow> process \<times> store" where
  "driftProcess E p s =
     (if status p = Running then
        case randomBetween E (- 5) 5 s of (dc, s1) \<Rightarrow>
        case randomBetween E (- 20) 20 s1 of (dm, s2) \<Rightarrow>
        case Date_now E s2 of (t, s3) \<Rightarrow>
          (p\<lparr>cpu := max (1 / 2) (min 99 (cpu p + dc)),
             memory := max 10 (min 900 (memory p + dm)),
             heartbeat := t\<rparr>, s3)
      else (p, s))"

definition driftTick :: "env \<Rightarrow> store \<Rightarrow> store" where
  "driftTick E s =
     (case for_each (driftProcess E) (processes s) s of (ps, s') \<Rightarrow> s'\<lparr>processes := ps\<rparr>)"

subsection \<open>injectFaults\<close>

definition isRunning :: "process \<Rightarrow> bool" where
  "isRunning p = (status p = Running)"

definition notCorrupted :: "system_file \<Rightarrow> bool" where
  "notCorrupted f = (\<not> corrupted f)"

text \<open>The four branch bodies of a round. Each one filters its pool afresh.\<close>

definition crashProcess :: "env \<Rightarrow> store \<times> fault list \<Rightarrow> store \<times> fault list" where
  "crashProcess E a =
     (case a of (s, faults) \<Rightarrow>
      let runningProcesses = filter isRunning (getProcesses s) in
      if length runningProcesses > 0 then
        case randomIndex E (length runningProcesses) s of (i, s1) \<Rightarrow>
          let hit = (\<lambda>p. p\<lparr>status := Crashed, cpu := 0\<rparr>);
              target = hit (runningProcesses ! i);
              s2 = s1\<lparr>processes := update_kth isRunning i hit (processes s1)\<rparr>
          in case addLog E
               \<lparr>ltype = Error, event = ''Process Crashed'',
                description = ''Process '' @ pname target @ '' (PID: '' @ num_str E (pid target)
                  @ '') has crashed unexpectedly.''\<rparr> s2 of
             (_, s3) \<Rightarrow>
               (s3, faults @
                 [\<lparr>ftype = Crash, ftargetId = NumId (pid target), ftargetName = pname target,
                   fseverity = High,
                   fdescription = ''Process '' @ pname target @ '' (PID: ''
                     @ num_str E (pid target) @ '') has crashed.''\<rparr>])
      else (s, faults))"

definition freezeProcess :: "env \<Rightarrow> store \<times> fault list \<Rightarrow> store \<times> fault list" where
  "freezeProcess E a =
     (case a of (s, faults) \<Rightarrow>
      let runningProcesses = filter isRunning (getProcesses s) in
      if length runningProcesses > 0 then
        case randomIndex E (length runningProcesses) s of (i, s1) \<Rightarrow>
        case Date_now E s1 of (t, s2) \<Rightarrow>
          let hit = (\<lambda>p. p\<lparr>status := Frozen, heartbeat := t - 60000\<rparr>);
              target = hit (runningProcesses ! i);
              s3 = s2\<lparr>processes := update_kth isRunning i hit (processes s2)\<rparr>
          in case addLog E
               \<lparr>ltype = Warning, event = ''Process Frozen'',
                description = ''Process '' @ pname target @ '' (PID: '' @ num_str E (pid target)
                  @ '') stopped responding to heartbeat signals.''\<rparr> s3 of
             (_, s4) \<Rightarrow>
               (s4, faults @
                 [\<lparr>ftype = Freeze, ftargetId = NumId (pid target), ftargetName = pname target,
                   fseverity = Medium,
                   fdescription = ''Process '' @ pname target @ '' (PID: ''
                     @ num_str E (pid target) @ '') is frozen and not responding.''\<rparr>])
      else (s, faults))"

definition loadProcess :: "env \<Rightarrow> store \<times> fault list \<Rightarrow> store \<times> fault list" where
  "loadProcess E a =
     (case a of (s, faults) \<Rightarrow>
      let runningProcesses = filter isRunning (getProcesses s) in
      if length runningProcesses > 0 then
        case randomIndex E (length runningProcesses) s of (i, s1) \<Rightarrow>
        case randomBetween E 85 99 s1 of (c, s2) \<Rightarrow>
        case randomBetween E 700 900 s2 of (m, s3) \<Rightarrow>
          let hit = (\<lambda>p. p\<lparr>status := High_load, cpu := c, memory := m\<rparr>);
              target = hit (runningProcesses ! i);
              s4 = s3\<lparr>processes := update_kth isRunning i hit (processes s3)\<rparr>
          in case addLog E
               \<lparr>ltype = Warning, event = ''High Load Detected'',
                description = ''Process '' @ pname target @ '' (PID: '' @ num_str E (pid target)
                  @ '') CPU at '' @ toFixed1 E (cpu target) @ ''%, Memory at ''
                  @ toFixed1 E (memory target) @ ''MB.''\<rparr> s4 of
             (_, s5) \<Rightarrow>
               (s5, faults @
                 [\<lparr>ftype = HighLoad, ftargetId = NumId (pid target), ftargetName = pname target,
                   fseverity = Medium,
                   fdescription = ''Process '' @ pname target @ '' (PID: ''
                     @ num_str E (pid target) @ '') is experiencing high resource usage.''\<rparr>])
      else (s, faults))"

definition corruptFile :: "env \<Rightarrow> store \<times> fault list \<Rightarrow> store \<times> fault list" where
  "corruptFile E a =
     (case a of (s, faults) \<Rightarrow>
      let healthyFiles = filter notCorrupted (getFiles s) in
      if length healthyFiles > 0 then
        case randomIndex E (length healthyFiles) s of (i, s1) \<Rightarrow>
          let hit = (\<lambda>f. f\<lparr>corrupted := True,
                             checksum := ''CORRUPTED_'' @ drop 10 (checksum f)\<rparr>);
              target = hit (healthyFiles ! i);
              s2 = s1\<lparr>files := update_kth notCorrupted i hit (files s1)\<rparr>
          in case addLog E
               \<lparr>ltype = Error, event = ''File Corrupted'',
                description = ''File '' @ fname target @ '' at '' @ fpath target
                  @ '' checksum mismatch detected.''\<rparr> s2 of
             (_, s3) \<Rightarrow>
               (s3, faults @
                 [\<lparr>ftype = Corruption, ftargetId = StrId (fid target), ftargetName = fname target,
                   fseverity = High,
                   fdescription = ''File '' @ fname target @ '' at '' @ fpath target
                     @ '' has been corrupted.''\<rparr>])
      else (s, faults))"

text \<open>
  One iteration of the loop. The arrays \<^verbatim>\<open>processes\<close> and \<^verbatim>\<open>files\<close> are taken
  once before the loop; no entity is added or removed while it runs, so their lengths
  are those of the store's collections.
\<close>

definition injectRound :: "env \<Rightarrow> store \<times> fault list \<Rightarrow> store \<times> fault list" where
  "injectRound E a =
     (case a of (s, faults) \<Rightarrow>
      case Math_random E s of (faultType, s1) \<Rightarrow>
        if faultType < 3 / 10 \<and> length (processes s1) > 0 then crashProcess E (s1, faults)
        else if faultType < 5 / 10 \<and> length (processes s1) > 0 then freezeProcess E (s1, faults)
        else if faultType < 7 / 10 \<and> length (processes s1) > 0 then loadProcess E (s1, faults)
        else if length (files s1) > 0 then corruptFile E (s1, faults)
        else (s1, faults))"

definition injectFaults :: "env \<Rightarrow> store \<Rightarrow> fault list \<times> store" where
  "injectFaults E s =
     (case Math_random E s of (r, s1) \<Rightarrow>
      let numFaults = nat \<lfloor>r * 3\<rfloor> + 1 in
      case (injectRound E ^^ numFaults) (s1, []) of (s2, faults) \<Rightarrow>
        if length faults = 0 then
          case addLog E
            \<lparr>ltype = Info, event = ''Fault Injection'',
             description = ''Attempted fault injection but all systems are already faulty or no valid targets found.''\<rparr>
            s2 of
          (_, s3) \<Rightarrow> (faults, s3)
        else (faults, s2))"

subsection \<open>healFaults\<close>

definition restartCrashed ::
  "env \<Rightarrow> process \<Rightarrow> store \<times> heal_result list \<Rightarrow> process \<times> store \<times> heal_result list" where
  "restartCrashed E p a =
     (case a of (s, results) \<Rightarrow>
      if status p = Crashed then
        case randomBetween E 5 25 s of (c, s1) \<Rightarrow>
        case randomBetween E 50 200 s1 of (m, s2) \<Rightarrow>
        case Date_now E s2 of (t, s3) \<Rightarrow>
          let p' = p\<lparr>status := Running, cpu := c, memory := m, heartbeat := t\<rparr> in
          case addLog E
            \<lparr>ltype = Success, event = ''Process Restarted'',
             description = ''Successfully restarted crashed process '' @ pname p' @ '' (PID: ''
               @ num_str E (pid p') @ '').''\<rparr> s3 of
          (_, s4) \<Rightarrow>
            (p', s4, results @
              [\<lparr>success = True, action = ''restart'', targetId = NumId (pid p'),
                targetName = pname p',
                message = ''Process '' @ pname p' @ '' (PID: '' @ num_str E (pid p')
                  @ '') has been restarted.''\<rparr>])
      else (p, s, results))"

definition unfreeze ::
  "env \<Rightarrow> process \<Rightarrow> store \<times> heal_result list \<Rightarrow> process \<times> store \<times> heal_result list" where
  "unfreeze E p a =
     (case a of (s, results) \<Rightarrow>
      if status p = Frozen then
        case Date_now E s of (t, s1) \<Rightarrow>
          let p' = p\<lparr>status := Running, heartbeat := t\<rparr> in
          case addLog E
            \<lparr>ltype = Success, event = ''Process Unfrozen'',
             description = ''Successfully unfroze process '' @ pname p' @ '' (PID: ''
               @ num_str E (pid p') @ '') and restored heartbeat.''\<rparr> s1 of
          (_, s2) \<Rightarrow>
            (p', s2, results @
              [\<lparr>success = True, action = ''unfreeze'', targetId = NumId (pid p'),
                targetName = pname p',
                message = ''Process '' @ pname p' @ '' (PID: '' @ num_str E (pid p')
                  @ '') heartbeat has been reset.''\<rparr>])
      else (p, s, results))"

definition optimize ::
  "env \<Rightarrow> process \<Rightarrow> store \<times> heal_result list \<Rightarrow> process \<times> store \<times> heal_result list" where
  "optimize E p a =
     (case a of (s, results) \<Rightarrow>
      if status p = High_load then
        case randomBetween E 10 40 s of (c, s1) \<Rightarrow>
        case randomBetween E 100 300 s1 of (m, s2) \<Rightarrow>
          let p' = p\<lparr>status := Running, cpu := c, memory := m\<rparr> in
          case addLog E
            \<lparr>ltype = Success, event = ''Load Optimized'',
             description = ''Successfully optimized high-load process '' @ pname p' @ '' (PID: ''
               @ num_str E (pid p') @ '').''\<rparr> s2 of
          (_, s3) \<Rightarrow>
            (p', s3, results @
              [\<lparr>success = True, action = ''optimize'', targetId = NumId (pid p'),
                targetName = pname p',
                message = ''Process '' @ pname p' @ '' (PID: '' @ num_str E (pid p')
                  @ '') load has been optimized.''\<rparr>])
      else (p, s, results))"

definition restore ::
  "env \<Rightarrow> system_file \<Rightarrow> store \<times> heal_result list \<Rightarrow> system_file \<times> store \<times> heal_result list" where
  "restore E f a =
     (case a of (s, results) \<Rightarrow>
      if corrupted f then
        case generateChecksum E s of (c, s1) \<Rightarrow>
        case Date_now E s1 of (t, s2) \<Rightarrow>
          let f' = f\<lparr>corrupted := False, checksum := c, lastModified := t\<rparr> in
          case addLog E
            \<lparr>ltype = Success, event = ''File Restored'',
             description = ''Successfully restored corrupted file '' @ fname f' @ '' at ''
               @ fpath f' @ ''.''\<rparr> s2 of
          (_, s3) \<Rightarrow>
            (f', s3, results @
              [\<lparr>success = True, action = ''restore'', targetId = StrId (fid f'),
                targetName = fname f',
                message = ''File '' @ fname f' @ '' has been restored from backup.''\<rparr>])
      else (f, s, results))"

definition healFaults :: "env \<Rightarrow> store \<Rightarrow> heal_result list \<times> store" where
  "healFaults E s =
     (case for_each (restartCrashed E) (processes s) (s, []) of (ps1, a1) \<Rightarrow>
      case for_each (unfreeze E) ps1 a1 of (ps2, a2) \<Rightarrow>
      case for_each (optimize E) ps2 a2 of (ps3, a3) \<Rightarrow>
      case for_each (restore E) (files s) a3 of (fs, s4, results) \<Rightarrow>
        let s5 = s4\<lparr>processes := ps3, files := fs\<rparr> in
        if length results = 0 then
          case addLog E
            \<lparr>ltype = Info, event = ''System Check'',
             description = ''No faults detected. All systems are operating normally.''\<rparr> s5 of
          (_, s6) \<Rightarrow> (results, s6)
        else (results, s5))"

section \<open>Notions of the specification\<close>

text \<open>The mean of the processes' cpu values, 0 if there is no process.\<close>

definition meanCpu :: "store \<Rightarrow> real" where
  "meanCpu s =
     (if getProcesses s = [] then 0
      else sum_list (map cpu (getProcesses s)) / real (length (getProcesses s)))"

definition meanMemory :: "store \<Rightarrow> real" where
  "meanMemory s =
     (if getProcesses s = [] then 0
      else sum_list (map memory (getProcesses s)) / real (length (getProcesses s)))"

text \<open>The number of processes whose status is not running, and of corrupted files.\<close>

definition faultyCount :: "store \<Rightarrow> nat" where
  "faultyCount s = length (filter (\<lambda>p. status p \<noteq> Running) (getProcesses s))"

definition corruptedCount :: "store \<Rightarrow> nat" where
  "corruptedCount s = length (filter corrupted (getFiles s))"

text \<open>The log buffer after one more entry under the retention cap of 100.\<close>

definition appended :: "log_entry list \<Rightarrow> log_entry \<Rightarrow> log_entry list" where
  "appended xs e = drop (length xs + 1 - 100) (xs @ [e])"

text \<open>
  The clock never runs backwards: a later call of \<^verbatim>\<open>Date.now()\<close> returns no
  earlier time.
\<close>

definition monotone_clock :: "env \<Rightarrow> bool" where
  "monotone_clock E = (\<forall>i j. i \<le> j \<longrightarrow> now_at E i \<le> now_at E j)"

text \<open>
  The log buffer is in chronological order and none of its entries is stamped later
  than the next reading of the clock.
\<close>

definition chrono :: "env \<Rightarrow> store \<Rightarrow> bool" where
  "chrono E s =
     (sorted (map timestamp (logs s)) \<and>
      list_all (\<lambda>e. timestamp e \<le> now_at E (now_calls s)) (logs s))"

text \<open>What a heal result says: whom it is about and whether the repair succeeded.\<close>

abbreviation (input) verdict :: "heal_result \<Rightarrow> target_id \<times> bool" where
  "verdict r \<equiv> (targetId r, success r)"

text \<open>
  The bounds of the drift clamp, and the bounds that hold throughout: those of the drift
  clamp for every process that is not crashed, cpu 0 for a crashed one.
\<close>

definition driftBounds :: "process \<Rightarrow> bool" where
  "driftBounds p = (1 / 2 \<le> cpu p \<and> cpu p \<le> 99 \<and> 10 \<le> memory p \<and> memory p \<le> 900)"

definition withinBounds :: "process \<Rightarrow> bool" where
  "withinBounds p =
     (if status p = Crashed then cpu p = 0 \<and> 10 \<le> memory p \<and> memory p \<le> 900
      else driftBounds p)"

text \<open>
  The three outcomes of a round: nothing happens; one running process is hit and one
  fault reported; one uncorrupted file is hit and one fault reported.
\<close>

definition idle_round :: "store \<Rightarrow> fault list \<Rightarrow> store \<times> fault list \<Rightarrow> bool" where
  "idle_round s faults a =
     (snd a = faults \<and> processes (fst a) = processes s \<and> files (fst a) = files s)"

definition process_round ::
  "fault_type \<Rightarrow> process_status \<Rightarrow> store \<Rightarrow> fault list \<Rightarrow> store \<times> fault list \<Rightarrow> bool" where
  "process_round c st s faults a =
     (\<exists>i hit ft.
        i < length (filter isRunning (getProcesses s)) \<and>
        processes (fst a) = update_kth isRunning i hit (processes s) \<and>
        files (fst a) = files s \<and>
        snd a = faults @ [ft] \<and> ftype ft = c \<and>
        ftargetId ft = NumId (pid (filter isRunning (getProcesses s) ! i)) \<and>
        (\<forall>p. pid (hit p) = pid p \<and> status (hit p) = st \<and>
             (isRunning p \<longrightarrow> withinBounds p \<longrightarrow> withinBounds (hit p))))"

definition file_round :: "store \<Rightarrow> fault list \<Rightarrow> store \<times> fault list \<Rightarrow> bool" where
  "file_round s faults a =
     (\<exists>i hit ft.
        i < length (filter notCorrupted (getFiles s)) \<and>
        files (fst a) = update_kth notCorrupted i hit (files s) \<and>
        processes (fst a) = processes s \<and>
        snd a = faults @ [ft] \<and> ftype ft = Corruption \<and>
        ftargetId ft = StrId (fid (filter notCorrupted (getFiles s) ! i)) \<and>
        (\<forall>f. fid (hit f) = fid f \<and> corrupted (hit f)))"

text \<open>
  The category a draw selects, the category a round settles on (corruption when the
  store has no process), and the number of eligible targets of a category.
\<close>

definition drawnCategory :: "real \<Rightarrow> fault_type" where
  "drawnCategory r =
     (if r < 3 / 10 then Crash else if r < 5 / 10 then Freeze
      else if r < 7 / 10 then HighLoad else Corruption)"

definition selectedCategory :: "env \<Rightarrow> store \<Rightarrow> fault_type" where
  "selectedCategory E s =
     (if processes s = [] then Corruption
      else drawnCategory (val (random_at E (random_calls s))))"

definition poolSize :: "fault_type \<Rightarrow> store \<Rightarrow> nat" where
  "poolSize c s =
     (case c of
        Corruption \<Rightarrow> length (filter notCorrupted (getFiles s))
      | Missing_file \<Rightarrow> 0
      | _ \<Rightarrow> length (filter isRunning (getProcesses s)))"

text \<open>
  A fault is reflected by a store when the entity carrying the fault's target id is in the
  state of the fault's category there.
\<close>

definition reflected :: "store \<Rightarrow> fault \<Rightarrow> bool" where
  "reflected s f =
     (case ftype f of
        Crash \<Rightarrow>
          list_ex (\<lambda>p. NumId (pid p) = ftargetId f \<and> status p = Crashed) (getProcesses s)
      | Freeze \<Rightarrow>
          list_ex (\<lambda>p. NumId (pid p) = ftargetId f \<and> status p = Frozen) (getProcesses s)
      | HighLoad \<Rightarrow>
          list_ex (\<lambda>p. NumId (pid p) = ftargetId f \<and> status p = High_load) (getProcesses s)
      | Corruption \<Rightarrow>
          list_ex (\<lambda>x. StrId (fid x) = ftargetId f \<and> corrupted x) (getFiles s)
      | Missing_file \<Rightarrow> False)"

text \<open>Every entity is known under its own id, and no two entities share an id.\<close>

definition wellKeyed :: "store \<Rightarrow> bool" where
  "wellKeyed s =
     (distinct (map pid (getProcesses s)) \<and> distinct (map fid (getFiles s)))"

text \<open>What initializeSystem establishes, entity by entity.\<close>

definition freshProcesses :: "store \<Rightarrow> bool" where
  "freshProcesses s =
     ((\<forall>(k, p) \<in> set (processes s).
         pid p = k \<and> k < nextPid s \<and> status p = Running \<and> withinBounds p) \<and>
      distinct (map fst (processes s)))"

definition freshFiles :: "store \<Rightarrow> bool" where
  "freshFiles s =
     ((\<forall>(k, f) \<in> set (files s). fid f = k \<and> \<not> corrupted f) \<and>
      distinct (map fst (files s)))"

text \<open>
  The stores the engine can be in: the one the constructor builds, and what the
  operations make of it. Partial updates of a process or a file may change the entities
  in any way.
\<close>

inductive reachable :: "env \<Rightarrow> store \<Rightarrow> bool" for E where
  start: "reachable E (MemStorage E)"
| drift: "reachable E s \<Longrightarrow> reachable E (driftTick E s)"
| inject: "reachable E s \<Longrightarrow> reachable E (snd (injectFaults E s))"
| heal: "reachable E s \<Longrightarrow> reachable E (snd (healFaults E s))"
| repair: "reachable E s \<Longrightarrow> reachable E (snd (repairFile E i s))"
| log: "reachable E s \<Longrightarrow> reachable E (snd (addLog E l s))"
| health: "reachable E s \<Longrightarrow> reachable E (snd (getHealth E s))"
| updateProcess: "reachable E s \<Longrightarrow> reachable E (s\<lparr>processes := ps\<rparr>)"
| updateFile: "reachable E s \<Longrightarrow> reachable E (s\<lparr>files := fs\<rparr>)"

section \<open>Concrete inputs\<close>

definition env0 :: env where
  "env0 = \<lparr>random_at = (\<lambda>n. draw_of 0), now_at = (\<lambda>n. 1000 + int n),
            uuid_at = (\<lambda>n. ''0f8fad5b-d9cb-469f-a165-70867728950e''),
            num_str = (\<lambda>n. ''#''), toFixed1 = (\<lambda>x. ''#'')\<rparr>"

definition hot_process :: process where
  "hot_process = \<lparr>pid = 1001, pname = ''kernel_scheduler'', memory = 100, cpu = 150,
                   heartbeat = 0, status = Running\<rparr>"

definition config_file :: system_file where
  "config_file = \<lparr>fid = ''f1'', fname = ''config.json'', fpath = ''/etc/system/config.json'',
                   fsize = 2048, checksum = ''0123456789abcdef0123456789abcdef'',
                   corrupted = False, lastModified = 0\<rparr>"

definition hot_store :: store where
  "hot_store = \<lparr>processes = [(1001, hot_process)], files = [(''f1'', config_file)], logs = [],
                 initialized = True, nextPid = 1002, random_calls = 0, now_calls = 0,
                 uuid_calls = 0\<rparr>"

text \<open>A store with a corrupted file, and one with two log entries.\<close>

definition corrupt_file :: system_file where
  "corrupt_file =
     config_file\<lparr>corrupted := True, checksum := ''CORRUPTED_abcdef0123456789abcdef''\<rparr>"

definition sick_store :: store where
  "sick_store = hot_store\<lparr>files := [(''f1'', corrupt_file)]\<rparr>"

definition logged_store :: store where
  "logged_store =
     hot_store\<lparr>logs :=
       [\<lparr>ltype = Info, event = ''System Initialized'', description = ''started'',
         lid = ''a'', timestamp = 1000\<rparr>,
        \<lparr>ltype = Error, event = ''Process Crashed'', description = ''crashed'',
         lid = ''b'', timestamp = 1001\<rparr>],
       now_calls := 2, uuid_calls := 2\<rparr>"

text \<open>A store with one running process, and one with one crashed process.\<close>

definition calm_process :: process where
  "calm_process = \<lparr>pid = 1001, pname = ''kernel_scheduler'', memory = 100, cpu = 10,
                    heartbeat = 0, status = Running\<rparr>"

definition calm_store :: store where
  "calm_store = hot_store\<lparr>processes := [(1001, calm_process)]\<rparr>"

definition downed_store :: store where
  "downed_store =
     hot_store\<lparr>processes := [(1001, calm_process\<lparr>status := Crashed, cpu := 0\<rparr>)]\<rparr>"

text \<open>An environment whose uuids differ from call to call (for up to 256 calls).\<close>

definition hex_digit :: "nat \<Rightarrow> char" where
  "hex_digit n = ''0123456789abcdef'' ! (n mod 16)"

definition env1 :: env where
  "env1 = env0\<lparr>uuid_at :=
     (\<lambda>n. ''0f8fad5b-d9cb-469f-a165-7086772895'' @ [hex_digit (n div 16), hex_digit n])\<rparr>"

text \<open>An environment whose clock runs backwards, one millisecond per reading.\<close>

definition env_back :: env where
  "env_back = env0\<lparr>now_at := (\<lambda>n. 1000 - int n)\<rparr>"

definition check_log :: insert_log where
  "check_log = \<lparr>ltype = Info, event = ''System Check'', description = ''ok''\<rparr>"

section \<open>Basic facts\<close>

lemma val_draw_of: "0 \<le> x \<Longrightarrow> x < 1 \<Longrightarrow> val (draw_of x) = x"
  by transfer simp

lemma val_nonneg: "0 \<le> val d"
  by transfer simp

lemma val_less_one: "val d < 1"
  by transfer simp

lemma addLog_entry:
  "fst (addLog E l s) =
     \<lparr>ltype = ltype l, event = event l, description = description l,
      lid = uuid_at E (uuid_calls s), timestamp = now_at E (now_calls s)\<rparr>"
  by (simp add: addLog_def randomUUID_def Date_now_def Let_def)

lemma addLog_store:
  "snd (addLog E l s) =
     s\<lparr>logs := appended (logs s) (fst (addLog E l s)),
       uuid_calls := uuid_calls s + 1, now_calls := now_calls s + 1\<rparr>"
  by (simp add: addLog_def randomUUID_def Date_now_def appended_def Let_def)

section \<open>The health aggregator\<close>

lemma foldl_plus_sum_list:
  "foldl (\<lambda>sum p. sum + f p) (a::real) xs = a + sum_list (map f xs)"
  by (induction xs arbitrary: a) simp_all

lemma faulty_as_difference:
  "int (length xs) - int (length (filter (\<lambda>p. status p = Running) xs)) =
   int (length (filter (\<lambda>p. status p \<noteq> Running) xs))"
  using sum_length_filter_compl [of "\<lambda>p. status p = Running" xs] by simp

lemma getHealth_fst:
  "fst (getHealth E s) =
     \<lparr>cpuUsage = min 100 (meanCpu s), memoryUsage = min 100 (meanMemory s / 10),
      totalProcesses = int (length (getProcesses s)),
      healthyProcesses = int (length (filter (\<lambda>p. status p = Running) (getProcesses s))),
      faultyProcesses = int (faultyCount s),
      totalFiles = int (length (getFiles s)), corruptedFiles = int (corruptedCount s),
      hstatus =
        (if faultyCount s > 2 \<or> corruptedCount s > 2 \<or> meanCpu s > 80 then Critical
         else if faultyCount s > 0 \<or> corruptedCount s > 0 \<or> meanCpu s > 60 then HWarning
         else Healthy),
      lastUpdated = now_at E (now_calls s)\<rparr>"
  by (simp add: getHealth_def Date_now_def Let_def meanCpu_def meanMemory_def faultyCount_def
      corruptedCount_def foldl_plus_sum_list faulty_as_difference)

text \<open>
  C2. For every store, the status that getHealth reports is critical when more than two
  processes are faulty, more than two files are corrupted or the mean cpu exceeds 80;
  otherwise warning when some process is faulty, some file is corrupted or the mean cpu
  exceeds 60; otherwise healthy.
\<close>

theorem getHealth_status:
  "hstatus (fst (getHealth E s)) =
     (if faultyCount s > 2 \<or> corruptedCount s > 2 \<or> meanCpu s > 80 then Critical
      else if faultyCount s > 0 \<or> corruptedCount s > 0 \<or> meanCpu s > 60 then HWarning
      else Healthy)"
  by (simp add: getHealth_fst)

text \<open>
  C8, as the claim states it, fails: the cpu figure is the mean only up to 100. A store
  whose single process has cpu 150 reports 100.
\<close>

theorem getHealth_cpuUsage_capped_counterexample:
  "meanCpu hot_store = 150 \<and> cpuUsage (fst (getHealth env0 hot_store)) = 100"
  by (simp add: getHealth_fst meanCpu_def getProcesses_def hot_store_def hot_process_def)

text \<open>
  C8, amended. The cpu figure is the mean of the processes' cpu values (0 without
  processes) capped at 100, and the memory figure is the mean of their memory divided by
  10, capped at 100.
\<close>

theorem getHealth_usage:
  "cpuUsage (fst (getHealth E s)) = min 100 (meanCpu s) \<and>
   memoryUsage (fst (getHealth E s)) = min 100 (meanMemory s / 10)"
  by (simp add: getHealth_fst)

section \<open>Targeted repair\<close>

text \<open>
  C6. Repairing a file that is not corrupted reports failure with the message that the
  file is not corrupted and leaves the file as it was; repairing an unknown id reports
  failure with the message that the file was not found.
\<close>

theorem repairFile_reported_failures:
  "(map_of (files s) i = Some f \<and> \<not> corrupted f \<longrightarrow>
      \<not> success (fst (repairFile E i s)) \<and>
      message (fst (repairFile E i s)) = ''File is not corrupted.'' \<and>
      map_of (files (snd (repairFile E i s))) i = Some f) \<and>
   (map_of (files s) i = None \<longrightarrow>
      \<not> success (fst (repairFile E i s)) \<and>
      message (fst (repairFile E i s)) = ''File not found.'')"
  by (simp add: repairFile_def)

theorem repairFile_reported_failures_witness:
  "(\<not> success (fst (repairFile env0 ''f1'' hot_store)) \<and>
      message (fst (repairFile env0 ''f1'' hot_store)) = ''File is not corrupted.'' \<and>
      map_of (files (snd (repairFile env0 ''f1'' hot_store))) ''f1'' = Some config_file) \<and>
   (\<not> success (fst (repairFile env0 ''f2'' hot_store)) \<and>
      message (fst (repairFile env0 ''f2'' hot_store)) = ''File not found.'')"
  using repairFile_reported_failures [of hot_store "''f1''" config_file env0]
    repairFile_reported_failures [of hot_store "''f2''" config_file env0]
  by (simp add: hot_store_def config_file_def)

section \<open>The healer\<close>

lemma for_each_Cons:
  "for_each body ((k, v) # m) c =
     ((k, fst (body v c)) # fst (for_each body m (snd (body v c))),
      snd (for_each body m (snd (body v c))))"
  by (simp split: prod.splits)

lemma for_each_keys: "map fst (fst (for_each body m c)) = map fst m"
  by (induction m arbitrary: c) (auto simp: for_each_Cons simp del: for_each.simps(2))

lemma for_each_proj:
  assumes "\<And>v c. h (fst (body v c)) = g v"
  shows "map (h \<circ> snd) (fst (for_each body m c)) = map (g \<circ> snd) m"
  by (induction m arbitrary: c) (auto simp: for_each_Cons assms simp del: for_each.simps(2))

lemma for_each_inv:
  assumes "\<And>v c. I c \<Longrightarrow> I (snd (body v c))"
  shows "I c \<Longrightarrow> I (snd (for_each body m c))"
  by (induction m arbitrary: c) (auto simp: for_each_Cons assms simp del: for_each.simps(2))

lemma for_each_out:
  assumes "\<And>v s rs. map t (snd (snd (body v (s, rs)))) = map t rs @ out v"
  shows "map t (snd (snd (for_each body m c))) = map t (snd c) @ concat (map (out \<circ> snd) m)"
proof (induction m arbitrary: c)
  case Nil
  show ?case by simp
next
  case (Cons x m)
  obtain k v where x: "x = (k, v)" by (cases x)
  have "map t (snd (snd (body v c))) = map t (snd c) @ out v"
    using assms [of v "fst c" "snd c"] by simp
  with Cons [of "snd (body v c)"] x show ?case
    by (simp add: for_each_Cons del: for_each.simps(2))
qed

lemma for_each_idle:
  assumes "\<And>v c. v \<in> snd ` set m \<Longrightarrow> body v c = (v, c)"
  shows "for_each body m c = (m, c)"
  using assms by (induction m arbitrary: c) (auto simp: for_each_Cons simp del: for_each.simps(2))

lemma concat_map_if:
  "concat (map (\<lambda>x. if P x then [f x] else []) xs) = map f (filter P xs)"
  by (induction xs) simp_all

text \<open>
  What each healing body does to the identity and status of the entity it visits, and
  what it reports.
\<close>

lemma restartCrashed_view:
  "pid (fst (restartCrashed E p a)) = pid p"
  "status (fst (restartCrashed E p a)) = (if status p = Crashed then Running else status p)"
  by (auto simp: restartCrashed_def Let_def split: prod.splits)

lemma restartCrashed_out:
  "map (\<lambda>r. (targetId r, success r)) (snd (snd (restartCrashed E p (s, rs)))) =
   map (\<lambda>r. (targetId r, success r)) rs @ (if status p = Crashed then [(NumId (pid p), True)] else [])"
  by (auto simp: restartCrashed_def Let_def split: prod.splits)

lemma unfreeze_view:
  "pid (fst (unfreeze E p a)) = pid p"
  "status (fst (unfreeze E p a)) = (if status p = Frozen then Running else status p)"
  by (auto simp: unfreeze_def Let_def split: prod.splits)

lemma unfreeze_out:
  "map (\<lambda>r. (targetId r, success r)) (snd (snd (unfreeze E p (s, rs)))) =
   map (\<lambda>r. (targetId r, success r)) rs @ (if status p = Frozen then [(NumId (pid p), True)] else [])"
  by (auto simp: unfreeze_def Let_def split: prod.splits)

lemma optimize_view:
  "pid (fst (optimize E p a)) = pid p"
  "status (fst (optimize E p a)) = (if status p = High_load then Running else status p)"
  by (auto simp: optimize_def Let_def split: prod.splits)

lemma optimize_out:
  "map (\<lambda>r. (targetId r, success r)) (snd (snd (optimize E p (s, rs)))) =
   map (\<lambda>r. (targetId r, success r)) rs @ (if status p = High_load then [(NumId (pid p), True)] else [])"
  by (auto simp: optimize_def Let_def split: prod.splits)

lemma restore_view:
  "fid (fst (restore E f a)) = fid f"
  "corrupted (fst (restore E f a)) = False"
  by (auto simp: restore_def Let_def split: prod.splits)

lemma restore_out:
  "map (\<lambda>r. (targetId r, success r)) (snd (snd (restore E f (s, rs)))) =
   map (\<lambda>r. (targetId r, success r)) rs @ (if corrupted f then [(StrId (fid f), True)] else [])"
  by (auto simp: restore_def Let_def split: prod.splits)


lemma healFaults_shape:
  obtains ps1 a1 ps2 a2 ps3 a3 fs s4 rs where
    "for_each (restartCrashed E) (processes s) (s, []) = (ps1, a1)"
    "for_each (unfreeze E) ps1 a1 = (ps2, a2)"
    "for_each (optimize E) ps2 a2 = (ps3, a3)"
    "for_each (restore E) (files s) a3 = (fs, s4, rs)"
    "fst (healFaults E s) = rs"
    "processes (snd (healFaults E s)) = ps3"
    "files (snd (healFaults E s)) = fs"
proof -
  obtain ps1 a1 where 1: "for_each (restartCrashed E) (processes s) (s, []) = (ps1, a1)"
    by (cases "for_each (restartCrashed E) (processes s) (s, [])")
  obtain ps2 a2 where 2: "for_each (unfreeze E) ps1 a1 = (ps2, a2)"
    by (cases "for_each (unfreeze E) ps1 a1")
  obtain ps3 a3 where 3: "for_each (optimize E) ps2 a2 = (ps3, a3)"
    by (cases "for_each (optimize E) ps2 a2")
  obtain fs s4 rs where 4: "for_each (restore E) (files s) a3 = (fs, s4, rs)"
    by (cases "for_each (restore E) (files s) a3")
  have "fst (healFaults E s) = rs" "processes (snd (healFaults E s)) = ps3"
    "files (snd (healFaults E s)) = fs"
    by (simp_all add: healFaults_def 1 2 3 4 Let_def addLog_store case_prod_beta)
  with 1 2 3 4 show thesis by (rule that)
qed

lemma healFaults_sound:
  "map (status \<circ> snd) (processes (snd (healFaults E s))) = map (\<lambda>x. Running) (processes s)"
  "map (corrupted \<circ> snd) (files (snd (healFaults E s))) = map (\<lambda>x. False) (files s)"
  "map verdict (fst (healFaults E s)) =
     map (\<lambda>p. (NumId (pid p), True)) (filter (\<lambda>p. status p = Crashed) (getProcesses s)) @
     map (\<lambda>p. (NumId (pid p), True)) (filter (\<lambda>p. status p = Frozen) (getProcesses s)) @
     map (\<lambda>p. (NumId (pid p), True)) (filter (\<lambda>p. status p = High_load) (getProcesses s)) @
     map (\<lambda>f. (StrId (fid f), True)) (filter corrupted (getFiles s))"
proof -
  obtain ps1 a1 ps2 a2 ps3 a3 fs s4 rs where
    1: "for_each (restartCrashed E) (processes s) (s, []) = (ps1, a1)" and
    2: "for_each (unfreeze E) ps1 a1 = (ps2, a2)" and
    3: "for_each (optimize E) ps2 a2 = (ps3, a3)" and
    4: "for_each (restore E) (files s) a3 = (fs, s4, rs)" and
    r: "fst (healFaults E s) = rs" and
    p: "processes (snd (healFaults E s)) = ps3" and
    f: "files (snd (healFaults E s)) = fs"
    by (rule healFaults_shape)
  let ?view = "\<lambda>x::nat \<times> process. (pid (snd x), status (snd x))"
  let ?g1 = "\<lambda>(i::nat, st). (i, if st = Crashed then Running else st)"
  let ?g2 = "\<lambda>(i::nat, st). (i, if st = Frozen then Running else st)"
  let ?g3 = "\<lambda>(i::nat, st). (i, if st = High_load then Running else st)"
  let ?h1 = "\<lambda>(i::nat, st). if st = Crashed then [(NumId i, True)] else []"
  let ?h2 = "\<lambda>(i::nat, st). if st = Frozen then [(NumId i, True)] else []"
  let ?h3 = "\<lambda>(i::nat, st). if st = High_load then [(NumId i, True)] else []"
  let ?V = "map ?view (processes s)"
  have v1: "map ?view ps1 = map ?g1 ?V"
    using for_each_proj [of "\<lambda>p. (pid p, status p)" "restartCrashed E" _ "processes s" "(s, [])"] 1
    by (simp add: restartCrashed_view comp_def)
  have v2: "map ?view ps2 = map ?g2 (map ?view ps1)"
    using for_each_proj [of "\<lambda>p. (pid p, status p)" "unfreeze E" _ ps1 a1] 2
    by (simp add: unfreeze_view comp_def)
  have v3: "map ?view ps3 = map ?g3 (map ?view ps2)"
    using for_each_proj [of "\<lambda>p. (pid p, status p)" "optimize E" _ ps2 a2] 3
    by (simp add: optimize_view comp_def)
  have v4: "map (corrupted \<circ> snd) fs = map ((\<lambda>f. False) \<circ> snd) (files s)"
    using for_each_proj [of corrupted "restore E" _ "files s" a3] 4
    by (simp add: restore_view)
  show "map (corrupted \<circ> snd) (files (snd (healFaults E s))) = map (\<lambda>x. False) (files s)"
    using v4 f by (simp add: comp_def)
  have "map snd (map ?view ps3) = map (\<lambda>x. Running) (processes s)"
    unfolding v3 v2 v1 by (auto intro: process_status.exhaust)
  then show "map (status \<circ> snd) (processes (snd (healFaults E s))) = map (\<lambda>x. Running) (processes s)"
    using p by (simp add: comp_def)
  have o1: "map verdict (snd a1) = concat (map ?h1 ?V)"
    using for_each_out [of verdict "restartCrashed E" _ "processes s" "(s, [])"] 1
    by (simp add: restartCrashed_out comp_def)
  have o2: "map verdict (snd a2) = map verdict (snd a1) @ concat (map ?h2 (map ?view ps1))"
    using for_each_out [of verdict "unfreeze E" _ ps1 a1] 2
    by (simp add: unfreeze_out comp_def)
  have o3: "map verdict (snd a3) = map verdict (snd a2) @ concat (map ?h3 (map ?view ps2))"
    using for_each_out [of verdict "optimize E" _ ps2 a2] 3
    by (simp add: optimize_out comp_def)
  have o4: "map verdict rs = map verdict (snd a3) @
      concat (map ((\<lambda>f. if corrupted f then [(StrId (fid f), True)] else []) \<circ> snd) (files s))"
    using for_each_out [of verdict "restore E" _ "files s" a3] 4
    by (simp add: restore_out)
  have "?h2 (?g1 x) = ?h2 x" for x
    by (cases x) simp
  then have h2: "concat (map ?h2 (map ?view ps1)) = concat (map ?h2 ?V)"
    unfolding v1 by (simp only: map_map comp_def)
  have "?h3 (?g2 (?g1 x)) = ?h3 x" for x
    by (cases x) simp
  then have h3: "concat (map ?h3 (map ?view ps2)) = concat (map ?h3 ?V)"
    unfolding v2 v1 by (simp only: map_map comp_def)
  have c: "concat (map (\<lambda>(i::nat, st). if st = X then [(NumId i, True)] else []) ?V) =
      map (\<lambda>p. (NumId (pid p), True)) (filter (\<lambda>p. status p = X) (getProcesses s))" for X
    by (simp add: getProcesses_def comp_def concat_map_if filter_map)
  have d: "concat (map ((\<lambda>f. if corrupted f then [(StrId (fid f), True)] else []) \<circ> snd) (files s)) =
      map (\<lambda>f. (StrId (fid f), True)) (filter corrupted (getFiles s))"
    by (simp add: getFiles_def comp_def concat_map_if filter_map)
  show "map verdict (fst (healFaults E s)) =
     map (\<lambda>p. (NumId (pid p), True)) (filter (\<lambda>p. status p = Crashed) (getProcesses s)) @
     map (\<lambda>p. (NumId (pid p), True)) (filter (\<lambda>p. status p = Frozen) (getProcesses s)) @
     map (\<lambda>p. (NumId (pid p), True)) (filter (\<lambda>p. status p = High_load) (getProcesses s)) @
     map (\<lambda>f. (StrId (fid f), True)) (filter corrupted (getFiles s))"
    unfolding r o4 o3 o2 o1 h2 h3 c d by simp
qed

lemma faulty_by_status:
  "length (filter (\<lambda>p. status p \<noteq> Running) ps) =
     length (filter (\<lambda>p. status p = Crashed) ps) + length (filter (\<lambda>p. status p = Frozen) ps)
     + length (filter (\<lambda>p. status p = High_load) ps)"
proof (induction ps)
  case Nil
  show ?case by simp
next
  case (Cons p ps)
  then show ?case by (cases "status p") simp_all
qed

lemma all_running_after_heal:
  "list_all (\<lambda>p. status p = Running) (getProcesses (snd (healFaults E s)))"
proof -
  have "map status (getProcesses (snd (healFaults E s))) = map (\<lambda>x. Running) (processes s)"
    using healFaults_sound(1) [of E s] by (simp add: getProcesses_def)
  then have "\<forall>st \<in> set (map status (getProcesses (snd (healFaults E s)))). st = Running"
    by simp
  then show ?thesis by (simp add: list_all_iff)
qed

lemma none_corrupted_after_heal:
  "list_all (\<lambda>f. \<not> corrupted f) (getFiles (snd (healFaults E s)))"
proof -
  have "map corrupted (getFiles (snd (healFaults E s))) = map (\<lambda>x. False) (files s)"
    using healFaults_sound(2) [of E s] by (simp add: getFiles_def)
  then have "\<forall>b \<in> set (map corrupted (getFiles (snd (healFaults E s)))). b = False"
    by simp
  then show ?thesis by (simp add: list_all_iff)
qed

text \<open>
  C1. After one call of healFaults every process is running and no file is corrupted;
  the results list the crashed, the frozen and the high-load processes and the corrupted
  files of the store the call began with, one entry each and in this order, so its length
  is the number of faulted entities; and every entry reports success.
\<close>

theorem healFaults_heals_every_fault:
  "list_all (\<lambda>p. status p = Running) (getProcesses (snd (healFaults E s))) \<and>
   list_all (\<lambda>f. \<not> corrupted f) (getFiles (snd (healFaults E s))) \<and>
   map targetId (fst (healFaults E s)) =
     map (\<lambda>p. NumId (pid p)) (filter (\<lambda>p. status p = Crashed) (getProcesses s)) @
     map (\<lambda>p. NumId (pid p)) (filter (\<lambda>p. status p = Frozen) (getProcesses s)) @
     map (\<lambda>p. NumId (pid p)) (filter (\<lambda>p. status p = High_load) (getProcesses s)) @
     map (\<lambda>f. StrId (fid f)) (filter corrupted (getFiles s)) \<and>
   length (fst (healFaults E s)) = faultyCount s + corruptedCount s \<and>
   list_all success (fst (healFaults E s))"
proof -
  let ?rs = "fst (healFaults E s)"
  note v = healFaults_sound(3) [of E s]
  have ids: "map targetId ?rs = map fst (map verdict ?rs)"
    by simp
  have oks: "map success ?rs = map snd (map verdict ?rs)"
    by simp
  have "length ?rs = length (map verdict ?rs)"
    by simp
  also have "\<dots> = faultyCount s + corruptedCount s"
    unfolding v by (simp add: faultyCount_def corruptedCount_def faulty_by_status)
  finally have len: "length ?rs = faultyCount s + corruptedCount s" .
  have "\<forall>b \<in> set (map success ?rs). b"
    unfolding oks v by auto
  then have ok: "list_all success ?rs"
    by (simp add: list_all_iff)
  have tid: "map targetId ?rs =
     map (\<lambda>p. NumId (pid p)) (filter (\<lambda>p. status p = Crashed) (getProcesses s)) @
     map (\<lambda>p. NumId (pid p)) (filter (\<lambda>p. status p = Frozen) (getProcesses s)) @
     map (\<lambda>p. NumId (pid p)) (filter (\<lambda>p. status p = High_load) (getProcesses s)) @
     map (\<lambda>f. StrId (fid f)) (filter corrupted (getFiles s))"
    unfolding ids v by (simp add: comp_def)
  from all_running_after_heal none_corrupted_after_heal tid len ok show ?thesis
    by blast
qed

lemma healFaults_idle:
  assumes "list_all (\<lambda>p. status p = Running) (getProcesses s)"
    and "list_all (\<lambda>f. \<not> corrupted f) (getFiles s)"
  shows "healFaults E s =
    ([], snd (addLog E \<lparr>ltype = Info, event = ''System Check'',
       description = ''No faults detected. All systems are operating normally.''\<rparr> s))"
proof -
  have run: "status v = Running" if "v \<in> snd ` set (processes s)" for v
    using assms(1) that by (auto simp: list_all_iff getProcesses_def)
  have ok: "\<not> corrupted f" if "f \<in> snd ` set (files s)" for f
    using assms(2) that by (auto simp: list_all_iff getFiles_def)
  have 1: "for_each (restartCrashed E) (processes s) c = (processes s, c)" for c
    by (rule for_each_idle) (simp add: restartCrashed_def run split: prod.splits)
  have 2: "for_each (unfreeze E) (processes s) c = (processes s, c)" for c
    by (rule for_each_idle) (simp add: unfreeze_def run split: prod.splits)
  have 3: "for_each (optimize E) (processes s) c = (processes s, c)" for c
    by (rule for_each_idle) (simp add: optimize_def run split: prod.splits)
  have 4: "for_each (restore E) (files s) c = (files s, c)" for c
    by (rule for_each_idle) (simp add: restore_def ok split: prod.splits)
  show ?thesis
    by (simp add: healFaults_def 1 2 3 4 case_prod_beta)
qed

text \<open>
  C7. A second call of healFaults right after a first one returns no result and appends
  exactly one log entry, of type info, to the buffer (under the retention cap); it
  changes no process and no file.
\<close>

theorem healFaults_twice:
  "fst (healFaults E (snd (healFaults E s))) = [] \<and>
   snd (healFaults E (snd (healFaults E s))) =
     snd (addLog E \<lparr>ltype = Info, event = ''System Check'',
       description = ''No faults detected. All systems are operating normally.''\<rparr>
       (snd (healFaults E s))) \<and>
   (let s1 = snd (healFaults E s); s2 = snd (healFaults E s1) in
      logs s2 = appended (logs s1)
        \<lparr>ltype = Info, event = ''System Check'',
         description = ''No faults detected. All systems are operating normally.'',
         lid = uuid_at E (uuid_calls s1), timestamp = now_at E (now_calls s1)\<rparr> \<and>
      processes s2 = processes s1 \<and> files s2 = files s1)"
  by (simp add: healFaults_idle [OF all_running_after_heal none_corrupted_after_heal]
      addLog_store addLog_entry Let_def)

section \<open>Targeted repair leaves the store alone when it fails\<close>

lemma repairFile_success_iff:
  "success (fst (repairFile E i s)) \<longleftrightarrow> (\<exists>f. map_of (files s) i = Some f \<and> corrupted f)"
  by (auto simp: repairFile_def Let_def case_prod_beta split: option.splits)

lemma repairFile_repaired_logs:
  assumes "map_of (files s) i = Some f" and "corrupted f"
  shows "logs (snd (repairFile E i s)) =
    appended (logs s)
      \<lparr>ltype = Success, event = ''File Repaired'',
       description = ''Successfully repaired file '' @ fname f @ '' at '' @ fpath f
         @ ''. New checksum generated.'',
       lid = uuid_at E (uuid_calls s + 1), timestamp = now_at E (now_calls s + 1)\<rparr>"
  using assms
  by (simp add: repairFile_def generateChecksum_def randomUUID_def Date_now_def
      addLog_store addLog_entry Let_def case_prod_beta)

text \<open>
  C10. repairFile succeeds exactly when the id names a corrupted file. Whenever it
  reports failure the store is left exactly as it was: no process, no file and no log
  entry changes. On success one entry of type success is appended to the log buffer.
\<close>

theorem repairFile_failure_changes_nothing:
  "(success (fst (repairFile E i s)) \<longleftrightarrow> (\<exists>f. map_of (files s) i = Some f \<and> corrupted f)) \<and>
   (\<not> success (fst (repairFile E i s)) \<longrightarrow> snd (repairFile E i s) = s) \<and>
   (success (fst (repairFile E i s)) \<longrightarrow>
      (\<exists>e. ltype e = Success \<and> logs (snd (repairFile E i s)) = appended (logs s) e))"
proof (intro conjI impI)
  show "success (fst (repairFile E i s)) \<longleftrightarrow> (\<exists>f. map_of (files s) i = Some f \<and> corrupted f)"
    by (rule repairFile_success_iff)
next
  assume "\<not> success (fst (repairFile E i s))"
  then show "snd (repairFile E i s) = s"
    by (auto simp: repairFile_def Let_def case_prod_beta split: option.splits if_splits)
next
  assume "success (fst (repairFile E i s))"
  then obtain f where f: "map_of (files s) i = Some f" "corrupted f"
    unfolding repairFile_success_iff by blast
  let ?e = "\<lparr>ltype = Success, event = ''File Repaired'',
       description = ''Successfully repaired file '' @ fname f @ '' at '' @ fpath f
         @ ''. New checksum generated.'',
       lid = uuid_at E (uuid_calls s + 1), timestamp = now_at E (now_calls s + 1)\<rparr>"
  have "ltype ?e = Success \<and> logs (snd (repairFile E i s)) = appended (logs s) ?e"
    using repairFile_repaired_logs [OF f] by simp
  then show "\<exists>e. ltype e = Success \<and> logs (snd (repairFile E i s)) = appended (logs s) e"
    by (rule exI)
qed

theorem repairFile_failure_changes_nothing_witness:
  "\<not> success (fst (repairFile env0 ''f1'' hot_store)) \<and>
   snd (repairFile env0 ''f1'' hot_store) = hot_store \<and>
   \<not> success (fst (repairFile env0 ''f2'' hot_store)) \<and>
   snd (repairFile env0 ''f2'' hot_store) = hot_store \<and>
   success (fst (repairFile env0 ''f1'' sick_store)) \<and>
   length (logs (snd (repairFile env0 ''f1'' sick_store))) = 1"
  using repairFile_failure_changes_nothing [of env0 "''f1''" hot_store]
    repairFile_failure_changes_nothing [of env0 "''f2''" hot_store]
    repairFile_failure_changes_nothing [of env0 "''f1''" sick_store]
  by (auto simp: hot_store_def sick_store_def config_file_def corrupt_file_def appended_def)

section \<open>The log buffer\<close>

lemma getLogs_newest_first: "getLogs s = take 50 (rev (logs s))"
  by (cases "length (logs s) \<le> 50") (simp_all add: getLogs_def rev_drop)

lemma chrono_addLog:
  assumes "monotone_clock E" and "chrono E s"
  shows "chrono E (snd (addLog E l s))"
proof -
  let ?e = "fst (addLog E l s)"
  let ?n = "now_calls s"
  have t: "timestamp ?e = now_at E ?n"
    by (simp add: addLog_entry)
  have le: "now_at E ?n \<le> now_at E (?n + 1)"
    using assms(1) by (simp add: monotone_clock_def)
  have old: "\<forall>x \<in> set (logs s). timestamp x \<le> now_at E ?n"
    using assms(2) by (simp add: chrono_def list_all_iff)
  have "sorted (map timestamp (logs s @ [?e]))"
    using assms(2) old by (simp add: chrono_def sorted_append t)
  then have 1: "sorted (map timestamp (appended (logs s) ?e))"
    unfolding appended_def by (simp only: drop_map [symmetric] sorted_wrt_drop)
  have "\<forall>x \<in> set (logs s @ [?e]). timestamp x \<le> now_at E (?n + 1)"
    using old le t by auto
  then have 2: "\<forall>x \<in> set (appended (logs s) ?e). timestamp x \<le> now_at E (?n + 1)"
    unfolding appended_def by (meson in_set_dropD)
  from 1 2 show ?thesis
    by (simp add: chrono_def addLog_store list_all_iff)
qed

lemma monotone_clock_env0: "monotone_clock env0"
  by (simp add: monotone_clock_def env0_def)


section \<open>The fault injector\<close>

lemmas prims = Math_random_def Date_now_def randomUUID_def generateChecksum_def
  randomBetween_def randomIndex_def case_prod_beta Let_def

lemma randomIndex_less: "0 < n \<Longrightarrow> fst (randomIndex E n s) < n"
proof -
  assume n: "0 < n"
  let ?r = "val (random_at E (random_calls s))"
  have "?r * real n < real n"
    using val_less_one [of "random_at E (random_calls s)"] n by simp
  then have "\<lfloor>?r * real n\<rfloor> < int n"
    by (simp add: floor_less_iff)
  moreover have "0 \<le> \<lfloor>?r * real n\<rfloor>"
    using val_nonneg [of "random_at E (random_calls s)"] by simp
  ultimately have "nat \<lfloor>?r * real n\<rfloor> < n"
    by linarith
  then show ?thesis
    by (simp add: prims)
qed

lemma randomBetween_bounds:
  assumes "lo \<le> hi"
  shows "lo \<le> fst (randomBetween E lo hi s)" and "fst (randomBetween E lo hi s) \<le> hi"
proof -
  let ?r = "val (random_at E (random_calls s))"
  have r: "0 \<le> ?r" "?r \<le> 1"
    using val_nonneg [of "random_at E (random_calls s)"]
      val_less_one [of "random_at E (random_calls s)"] by simp_all
  have "0 \<le> ?r * (hi - lo)"
    using r assms by simp
  then show "lo \<le> fst (randomBetween E lo hi s)"
    by (simp add: prims)
  have "?r * (hi - lo) \<le> 1 * (hi - lo)"
    using r assms by (intro mult_right_mono) simp_all
  then show "fst (randomBetween E lo hi s) \<le> hi"
    by (simp add: prims)
qed

lemma update_kth_keys: "map fst (update_kth P i f m) = map fst m"
  by (induction m arbitrary: i) (auto split: nat.splits)

lemma update_kth_proj:
  assumes "\<And>v. P v \<Longrightarrow> g (f v) = g v"
  shows "map (g \<circ> snd) (update_kth P i f m) = map (g \<circ> snd) m"
  by (induction m arbitrary: i) (auto simp: assms split: nat.splits)

lemma update_kth_all:
  assumes "\<And>v. P v \<Longrightarrow> Q v \<Longrightarrow> Q (f v)"
  shows "list_all Q (map snd m) \<Longrightarrow> list_all Q (map snd (update_kth P i f m))"
  by (induction m arbitrary: i) (auto simp: assms split: nat.splits)

lemma update_kth_target:
  "i < length (filter P (map snd m)) \<Longrightarrow>
     f (filter P (map snd m) ! i) \<in> snd ` set (update_kth P i f m)"
proof (induction m arbitrary: i)
  case Nil
  then show ?case by simp
next
  case (Cons x m)
  obtain k v where x: "x = (k, v)" by (cases x)
  show ?case
  proof (cases "P v")
    case False
    with Cons x show ?thesis by (simp del: length_filter_map)
  next
    case True
    show ?thesis
    proof (cases i)
      case 0
      with True x show ?thesis by simp
    next
      case (Suc j)
      with Cons.prems True x have "j < length (filter P (map snd m))"
        by simp
      from Cons.IH [OF this] True x Suc show ?thesis
        by (simp del: length_filter_map)
    qed
  qed
qed

lemma update_kth_others:
  "v \<in> snd ` set m \<Longrightarrow> \<not> P v \<Longrightarrow> v \<in> snd ` set (update_kth P i f m)"
  by (induction m arbitrary: i) (force split: nat.splits)+

lemma snd_prims:
  "snd (Math_random E s) = s\<lparr>random_calls := random_calls s + 1\<rparr>"
  "snd (randomIndex E n s) = s\<lparr>random_calls := random_calls s + 1\<rparr>"
  "snd (randomBetween E lo hi s) = s\<lparr>random_calls := random_calls s + 1\<rparr>"
  "snd (Date_now E s) = s\<lparr>now_calls := now_calls s + 1\<rparr>"
  "snd (randomUUID E s) = s\<lparr>uuid_calls := uuid_calls s + 1\<rparr>"
  "snd (generateChecksum E s) = s\<lparr>uuid_calls := uuid_calls s + 1\<rparr>"
  by (simp_all add: prims)

lemma crashProcess_round:
  "if filter isRunning (getProcesses s) = [] then idle_round s faults (crashProcess E (s, faults))
   else process_round Crash Crashed s faults (crashProcess E (s, faults))"
proof (cases "filter isRunning (getProcesses s) = []")
  case True
  then show ?thesis by (simp add: crashProcess_def idle_round_def)
next
  case False
  let ?n = "length (filter isRunning (getProcesses s))"
  let ?i = "fst (randomIndex E ?n s)"
  from False have "?i < ?n"
    by (intro randomIndex_less) simp
  then have "process_round Crash Crashed s faults (crashProcess E (s, faults))"
    unfolding process_round_def
    apply (intro exI [of _ ?i] exI [of _ "\<lambda>p. p\<lparr>status := Crashed, cpu := 0\<rparr>"])
    using False
    apply (simp add: crashProcess_def case_prod_beta Let_def snd_prims addLog_store
        getProcesses_def withinBounds_def driftBounds_def isRunning_def del: length_filter_map)
    done
  with False show ?thesis by simp
qed

lemma freezeProcess_round:
  "if filter isRunning (getProcesses s) = [] then idle_round s faults (freezeProcess E (s, faults))
   else process_round Freeze Frozen s faults (freezeProcess E (s, faults))"
proof (cases "filter isRunning (getProcesses s) = []")
  case True
  then show ?thesis by (simp add: freezeProcess_def idle_round_def)
next
  case False
  let ?n = "length (filter isRunning (getProcesses s))"
  let ?i = "fst (randomIndex E ?n s)"
  let ?t = "fst (Date_now E (snd (randomIndex E ?n s)))"
  from False have "?i < ?n"
    by (intro randomIndex_less) simp
  then have "process_round Freeze Frozen s faults (freezeProcess E (s, faults))"
    unfolding process_round_def
    apply (intro exI [of _ ?i] exI [of _ "\<lambda>p. p\<lparr>status := Frozen, heartbeat := ?t - 60000\<rparr>"])
    using False
    apply (simp add: freezeProcess_def case_prod_beta Let_def snd_prims addLog_store
        getProcesses_def withinBounds_def driftBounds_def isRunning_def del: length_filter_map)
    done
  with False show ?thesis by simp
qed

lemma loadProcess_round:
  "if filter isRunning (getProcesses s) = [] then idle_round s faults (loadProcess E (s, faults))
   else process_round HighLoad High_load s faults (loadProcess E (s, faults))"
proof (cases "filter isRunning (getProcesses s) = []")
  case True
  then show ?thesis by (simp add: loadProcess_def idle_round_def)
next
  case False
  let ?n = "length (filter isRunning (getProcesses s))"
  let ?i = "fst (randomIndex E ?n s)"
  let ?s1 = "snd (randomIndex E ?n s)"
  let ?c = "fst (randomBetween E 85 99 ?s1)"
  let ?m = "fst (randomBetween E 700 900 (snd (randomBetween E 85 99 ?s1)))"
  have c: "1 / 2 \<le> ?c" "?c \<le> 99"
    using randomBetween_bounds [of 85 99 E ?s1] by simp_all
  have m: "10 \<le> ?m" "?m \<le> 900"
    using randomBetween_bounds [of 700 900 E "snd (randomBetween E 85 99 ?s1)"] by simp_all
  from False have "?i < ?n"
    by (intro randomIndex_less) simp
  then have "process_round HighLoad High_load s faults (loadProcess E (s, faults))"
    unfolding process_round_def
    apply (intro exI [of _ ?i] exI [of _ "\<lambda>p. p\<lparr>status := High_load, cpu := ?c, memory := ?m\<rparr>"])
    using False c m
    apply (simp add: loadProcess_def case_prod_beta Let_def snd_prims addLog_store
        getProcesses_def withinBounds_def driftBounds_def isRunning_def del: length_filter_map)
    done
  with False show ?thesis by simp
qed

lemma corruptFile_round:
  "if filter notCorrupted (getFiles s) = [] then idle_round s faults (corruptFile E (s, faults))
   else file_round s faults (corruptFile E (s, faults))"
proof (cases "filter notCorrupted (getFiles s) = []")
  case True
  then show ?thesis by (simp add: corruptFile_def idle_round_def)
next
  case False
  let ?n = "length (filter notCorrupted (getFiles s))"
  let ?i = "fst (randomIndex E ?n s)"
  from False have "?i < ?n"
    by (intro randomIndex_less) simp
  then have "file_round s faults (corruptFile E (s, faults))"
    unfolding file_round_def
    apply (intro exI [of _ ?i]
        exI [of _ "\<lambda>f. f\<lparr>corrupted := True, checksum := ''CORRUPTED_'' @ drop 10 (checksum f)\<rparr>"])
    using False
    apply (simp add: corruptFile_def case_prod_beta Let_def snd_prims addLog_store
        getFiles_def del: length_filter_map)
    done
  with False show ?thesis by simp
qed

lemma rounds_ignore_counters [simp]:
  "idle_round (s\<lparr>random_calls := n\<rparr>) faults a = idle_round s faults a"
  "process_round c st (s\<lparr>random_calls := n\<rparr>) faults a = process_round c st s faults a"
  "file_round (s\<lparr>random_calls := n\<rparr>) faults a = file_round s faults a"
  by (simp_all add: idle_round_def process_round_def file_round_def getProcesses_def
      getFiles_def)

lemma injectRound_selected:
  "if poolSize (selectedCategory E s) s = 0 then idle_round s faults (injectRound E (s, faults))
   else (case selectedCategory E s of
           Crash \<Rightarrow> process_round Crash Crashed s faults (injectRound E (s, faults))
         | Freeze \<Rightarrow> process_round Freeze Frozen s faults (injectRound E (s, faults))
         | HighLoad \<Rightarrow> process_round HighLoad High_load s faults (injectRound E (s, faults))
         | Corruption \<Rightarrow> file_round s faults (injectRound E (s, faults))
         | Missing_file \<Rightarrow> False)"
proof -
  let ?s1 = "snd (Math_random E s)"
  note branches =
    crashProcess_round [of ?s1 faults E] freezeProcess_round [of ?s1 faults E]
    loadProcess_round [of ?s1 faults E] corruptFile_round [of ?s1 faults E]
  have g: "getProcesses ?s1 = getProcesses s" "getFiles ?s1 = getFiles s"
    by (simp_all add: snd_prims getProcesses_def getFiles_def)
  have e: "(files s = []) \<Longrightarrow> filter notCorrupted (getFiles s) = []"
    by (simp add: getFiles_def)
  show ?thesis
    using branches e unfolding g
    by (auto simp: injectRound_def case_prod_beta selectedCategory_def drawnCategory_def
        poolSize_def snd_prims Math_random_def idle_round_def split: if_splits)
qed

text \<open>
  C3, amended. In every round the draw selects crash below 0.3, freeze below 0.5,
  high load below 0.7 and corruption otherwise, and the round settles on corruption
  instead of a process category only when the store has no process at all. When the
  pool of the category so selected is empty (no running process, resp. no uncorrupted
  file), the round reports no fault and changes no entity; otherwise it reports exactly
  one fault, of that category.
\<close>

theorem injectRound_selection:
  "if poolSize (selectedCategory E s) s = 0
   then snd (injectRound E (s, faults)) = faults \<and>
        processes (fst (injectRound E (s, faults))) = processes s \<and>
        files (fst (injectRound E (s, faults))) = files s
   else (\<exists>f. snd (injectRound E (s, faults)) = faults @ [f] \<and> ftype f = selectedCategory E s)"
  using injectRound_selected [of E s faults]
  by (auto simp: idle_round_def process_round_def file_round_def split: fault_type.splits if_splits)

text \<open>
  C3, as the claim states it, fails: with a crashed process as the only process and an
  uncorrupted file, a draw in the crash range finds its pool empty and the round (and
  the whole call) reports nothing, although the corruption pool is not empty.
\<close>

theorem injectRound_no_fall_through_counterexample:
  "selectedCategory env0 downed_store = Crash \<and>
   poolSize Crash downed_store = 0 \<and>
   poolSize Corruption downed_store = 1 \<and>
   snd (injectRound env0 (downed_store, [])) = [] \<and>
   fst (injectFaults env0 downed_store) = []"
  by (simp add: selectedCategory_def drawnCategory_def poolSize_def downed_store_def
      hot_store_def calm_process_def config_file_def env0_def val_draw_of getProcesses_def
      getFiles_def isRunning_def notCorrupted_def injectRound_def injectFaults_def
      crashProcess_def prims addLog_def)

text \<open>
  C4, as the claim states it, fails: a process within the bounds of the drift clamp is
  crashed by injectFaults and its cpu, now 0, is below the clamp's floor.
\<close>

theorem crash_breaks_drift_floor_counterexample:
  "list_all driftBounds (getProcesses calm_store) \<and>
   map cpu (getProcesses (snd (injectFaults env0 calm_store))) = [0] \<and>
   \<not> list_all driftBounds (getProcesses (snd (injectFaults env0 calm_store)))"
  by (simp add: driftBounds_def calm_store_def hot_store_def calm_process_def env0_def
      val_draw_of getProcesses_def isRunning_def injectRound_def injectFaults_def
      crashProcess_def prims addLog_def)

lemma for_each_all:
  assumes "\<And>v c. Q v \<Longrightarrow> Q (fst (body v c))"
  shows "list_all Q (map snd m) \<Longrightarrow> list_all Q (map snd (fst (for_each body m c)))"
  by (induction m arbitrary: c) (auto simp: for_each_Cons assms simp del: for_each.simps(2))

lemma driftProcess_bounds: "withinBounds p \<Longrightarrow> withinBounds (fst (driftProcess E p s))"
  by (auto simp: driftProcess_def withinBounds_def driftBounds_def case_prod_beta max_def min_def
      split: if_splits)

lemma restartCrashed_bounds: "withinBounds p \<Longrightarrow> withinBounds (fst (restartCrashed E p a))"
proof -
  assume p: "withinBounds p"
  obtain s rs where a: "a = (s, rs)" by (cases a)
  let ?c = "fst (randomBetween E 5 25 s)"
  let ?m = "fst (randomBetween E 50 200 (snd (randomBetween E 5 25 s)))"
  have "1 / 2 \<le> ?c" "?c \<le> 99"
    using randomBetween_bounds [of 5 25 E s] by simp_all
  moreover have "10 \<le> ?m" "?m \<le> 900"
    using randomBetween_bounds [of 50 200 E "snd (randomBetween E 5 25 s)"] by simp_all
  ultimately show ?thesis
    using p
    by (auto simp: a restartCrashed_def withinBounds_def driftBounds_def case_prod_beta Let_def
        split: if_splits)
qed

lemma unfreeze_bounds: "withinBounds p \<Longrightarrow> withinBounds (fst (unfreeze E p a))"
  by (cases a)
    (auto simp: unfreeze_def withinBounds_def driftBounds_def case_prod_beta Let_def
      split: if_splits)

lemma optimize_bounds: "withinBounds p \<Longrightarrow> withinBounds (fst (optimize E p a))"
proof -
  assume p: "withinBounds p"
  obtain s rs where a: "a = (s, rs)" by (cases a)
  let ?c = "fst (randomBetween E 10 40 s)"
  let ?m = "fst (randomBetween E 100 300 (snd (randomBetween E 10 40 s)))"
  have "1 / 2 \<le> ?c" "?c \<le> 99"
    using randomBetween_bounds [of 10 40 E s] by simp_all
  moreover have "10 \<le> ?m" "?m \<le> 900"
    using randomBetween_bounds [of 100 300 E "snd (randomBetween E 10 40 s)"] by simp_all
  ultimately show ?thesis
    using p
    by (auto simp: a optimize_def withinBounds_def driftBounds_def case_prod_beta Let_def
        split: if_splits)
qed

lemma driftTick_bounds:
  "list_all withinBounds (getProcesses s) \<Longrightarrow> list_all withinBounds (getProcesses (driftTick E s))"
  using for_each_all [of withinBounds "driftProcess E" "processes s" s]
  by (simp add: driftTick_def getProcesses_def case_prod_beta driftProcess_bounds)

lemma healFaults_bounds:
  assumes "list_all withinBounds (getProcesses s)"
  shows "list_all withinBounds (getProcesses (snd (healFaults E s)))"
proof -
  obtain ps1 a1 ps2 a2 ps3 a3 fs s4 rs where
    1: "for_each (restartCrashed E) (processes s) (s, []) = (ps1, a1)" and
    2: "for_each (unfreeze E) ps1 a1 = (ps2, a2)" and
    3: "for_each (optimize E) ps2 a2 = (ps3, a3)" and
    p: "processes (snd (healFaults E s)) = ps3"
    by (rule healFaults_shape)
  have "list_all withinBounds (map snd ps1)"
    using for_each_all [of withinBounds "restartCrashed E" "processes s" "(s, [])"] assms 1
    by (simp add: getProcesses_def restartCrashed_bounds)
  then have "list_all withinBounds (map snd ps2)"
    using for_each_all [of withinBounds "unfreeze E" ps1 a1] 2
    by (simp add: unfreeze_bounds)
  then have "list_all withinBounds (map snd ps3)"
    using for_each_all [of withinBounds "optimize E" ps2 a2] 3
    by (simp add: optimize_bounds)
  then show ?thesis
    by (simp add: getProcesses_def p)
qed

lemma injectRound_bounds:
  assumes "list_all withinBounds (getProcesses (fst a))"
  shows "list_all withinBounds (getProcesses (fst (injectRound E a)))"
proof -
  obtain s faults where a: "a = (s, faults)" by (cases a)
  have hit: "list_all withinBounds (map snd (update_kth isRunning i hit (processes s)))"
    if "\<forall>p. pid (hit p) = pid p \<and> status (hit p) = st \<and>
          (isRunning p \<longrightarrow> withinBounds p \<longrightarrow> withinBounds (hit p))" for i hit st
    using assms that by (intro update_kth_all) (simp_all add: a getProcesses_def)
  from injectRound_selected [of E s faults] assms show ?thesis
    unfolding a
    by (auto simp: idle_round_def process_round_def file_round_def getProcesses_def hit
        split: fault_type.splits if_splits)
qed

lemma funpow_invariant:
  assumes "\<And>a. I a \<Longrightarrow> I (f a)"
  shows "I a \<Longrightarrow> I ((f ^^ n) a)"
  by (induction n) (simp_all add: assms)

lemma injectFaults_processes:
  "processes (snd (injectFaults E s)) =
     processes (fst ((injectRound E ^^ (nat \<lfloor>fst (Math_random E s) * 3\<rfloor> + 1))
       (snd (Math_random E s), [])))"
  by (simp add: injectFaults_def case_prod_beta Let_def addLog_store)

lemma injectFaults_bounds:
  assumes "list_all withinBounds (getProcesses s)"
  shows "list_all withinBounds (getProcesses (snd (injectFaults E s)))"
proof -
  let ?I = "\<lambda>a. list_all withinBounds (getProcesses (fst a))"
  have "?I (snd (Math_random E s), [])"
    using assms by (simp add: snd_prims getProcesses_def)
  then have "?I ((injectRound E ^^ (nat \<lfloor>fst (Math_random E s) * 3\<rfloor> + 1))
      (snd (Math_random E s), []))"
    by (rule funpow_invariant [of ?I, rotated]) (rule injectRound_bounds)
  then show ?thesis
    by (simp only: getProcesses_def injectFaults_processes)
qed

section \<open>The initial store\<close>

lemma map_set_fresh: "k \<notin> fst ` set m \<Longrightarrow> map_set k v m = m @ [(k, v)]"
  by (induction m) auto

lemma map_set_entries: "set (map_set k v m) \<subseteq> insert (k, v) (set m)"
  by (induction m) (auto split: if_splits)

lemma map_set_nonempty: "map_set k v m \<noteq> []"
  by (cases m) (auto split: if_splits)

lemma map_set_keys: "distinct (map fst m) \<Longrightarrow> distinct (map fst (map_set k v m))"
proof (induction m)
  case Nil
  show ?case by simp
next
  case (Cons x m)
  have "fst ` set (map_set k v m) \<subseteq> insert k (fst ` set m)"
    using map_set_entries [of k v m] by force
  with Cons show ?case by (cases x) auto
qed

lemma initProcess_fresh:
  assumes "freshProcesses s"
  shows "freshProcesses (initProcess E i s)"
    and "length (processes (initProcess E i s)) = length (processes s) + 1"
    and "files (initProcess E i s) = files s"
proof -
  let ?s1 = "s\<lparr>nextPid := nextPid s + 1\<rparr>"
  let ?m = "fst (randomBetween E 50 500 ?s1)"
  let ?c = "fst (randomBetween E 1 30 (snd (randomBetween E 50 500 ?s1)))"
  have m: "10 \<le> ?m" "?m \<le> 900"
    using randomBetween_bounds [of 50 500 E ?s1] by simp_all
  have c: "1 / 2 \<le> ?c" "?c \<le> 99"
    using randomBetween_bounds [of 1 30 E "snd (randomBetween E 50 500 ?s1)"] by simp_all
  have new: "nextPid s \<notin> fst ` set (processes s)"
    using assms by (auto simp: freshProcesses_def)
  show "freshProcesses (initProcess E i s)"
    using assms m c
    by (auto simp: initProcess_def case_prod_beta Let_def snd_prims map_set_fresh [OF new]
        freshProcesses_def withinBounds_def driftBounds_def)
  show "length (processes (initProcess E i s)) = length (processes s) + 1"
    by (simp add: initProcess_def case_prod_beta Let_def snd_prims map_set_fresh [OF new])
  show "files (initProcess E i s) = files s"
    by (simp add: initProcess_def case_prod_beta Let_def snd_prims)
qed

lemma initProcesses_fresh:
  "freshProcesses s \<Longrightarrow>
     freshProcesses (fold (initProcess E) xs s) \<and>
     length (processes (fold (initProcess E) xs s)) = length (processes s) + length xs \<and>
     files (fold (initProcess E) xs s) = files s"
  by (induction xs arbitrary: s) (simp_all add: initProcess_fresh)

lemma initFile_fresh:
  assumes "freshFiles s"
  shows "freshFiles (initFile E tpl s)"
    and "files (initFile E tpl s) \<noteq> []"
    and "processes (initFile E tpl s) = processes s"
    and "nextPid (initFile E tpl s) = nextPid s"
proof -
  obtain nm pth sz where tpl: "tpl = (nm, pth, sz)" by (cases tpl)
  let ?file = "\<lparr>fid = fst (randomUUID E s), fname = nm, fpath = pth, fsize = sz,
      checksum = fst (generateChecksum E (snd (randomUUID E s))), corrupted = False,
      lastModified = fst (Date_now E (snd (generateChecksum E (snd (randomUUID E s))))) -
        \<lfloor>fst (Math_random E (snd (Date_now E (snd (generateChecksum E (snd (randomUUID E s))))))) * 86400000\<rfloor>\<rparr>"
  have f: "files (initFile E tpl s) = map_set (fst (randomUUID E s)) ?file (files s)"
    by (simp add: initFile_def tpl case_prod_beta snd_prims)
  have "\<forall>(j, w) \<in> set (map_set (fst (randomUUID E s)) ?file (files s)). fid w = j \<and> \<not> corrupted w"
    using assms map_set_entries [of "fst (randomUUID E s)" ?file "files s"]
    by (auto simp: freshFiles_def)
  then show "freshFiles (initFile E tpl s)"
    using assms unfolding freshFiles_def f by (simp add: map_set_keys)
  show "files (initFile E tpl s) \<noteq> []"
    unfolding f by (rule map_set_nonempty)
  show "processes (initFile E tpl s) = processes s" "nextPid (initFile E tpl s) = nextPid s"
    by (simp_all add: initFile_def tpl case_prod_beta snd_prims)
qed

lemma initFiles_fresh:
  "freshFiles s \<Longrightarrow>
     freshFiles (fold (initFile E) tpls s) \<and>
     (tpls \<noteq> [] \<longrightarrow> files (fold (initFile E) tpls s) \<noteq> []) \<and>
     processes (fold (initFile E) tpls s) = processes s \<and>
     nextPid (fold (initFile E) tpls s) = nextPid s"
proof (induction tpls arbitrary: s rule: rev_induct)
  case Nil
  then show ?case by simp
next
  case (snoc t tpls)
  then show ?case by (simp add: initFile_fresh)
qed

lemma MemStorage_fresh:
  "freshProcesses (MemStorage E)" "freshFiles (MemStorage E)"
  "length (processes (MemStorage E)) = 6" "files (MemStorage E) \<noteq> []"
proof -
  let ?s0 = "\<lparr>processes = [], files = [], logs = [], initialized = False, nextPid = 1001,
    random_calls = 0, now_calls = 0, uuid_calls = 0\<rparr>"
  let ?s1 = "fold (initProcess E) [0..<6] ?s0"
  let ?s2 = "fold (initFile E) FILE_TEMPLATES ?s1"
  have 0: "freshProcesses ?s0"
    by (simp add: freshProcesses_def)
  note 1 = initProcesses_fresh [OF 0, of E "[0..<6]"]
  have "freshFiles ?s1"
    using 1 by (simp add: freshFiles_def)
  note 2 = initFiles_fresh [OF this, of E FILE_TEMPLATES]
  have t: "FILE_TEMPLATES \<noteq> []"
    by (simp add: FILE_TEMPLATES_def)
  have p: "processes (MemStorage E) = processes ?s1" "files (MemStorage E) = files ?s2"
    using 2 by (simp_all add: MemStorage_def initializeSystem_def Let_def case_prod_beta addLog_store)
  show "freshProcesses (MemStorage E)"
    using 1 2 unfolding freshProcesses_def p
    by (simp add: MemStorage_def initializeSystem_def Let_def case_prod_beta addLog_store)
  show "freshFiles (MemStorage E)"
    using 2 unfolding freshFiles_def p by simp
  show "length (processes (MemStorage E))  = 6"
    using 1 unfolding p by simp
  show "files (MemStorage E) \<noteq> []"
    using 2 t unfolding p by simp
qed

section \<open>The bounds on cpu and memory\<close>

lemma MemStorage_bounds: "list_all withinBounds (getProcesses (MemStorage E))"
  using MemStorage_fresh(1) [of E]
  by (auto simp: freshProcesses_def getProcesses_def list_all_iff)

text \<open>
  C4, amended. In the initial store, and after every drift tick, injectFaults call and
  healFaults call on a store where it held before, every process has its memory within
  10 and 900 and its cpu within 0.5 and 99, the bounds of the drift clamp, unless it is
  crashed: the cpu of a crashed process is 0.
\<close>

theorem bounds_invariant:
  "list_all withinBounds (getProcesses (MemStorage E)) \<and>
   (list_all withinBounds (getProcesses s) \<longrightarrow>
      list_all withinBounds (getProcesses (driftTick E s)) \<and>
      list_all withinBounds (getProcesses (snd (injectFaults E s))) \<and>
      list_all withinBounds (getProcesses (snd (healFaults E s))))"
  using MemStorage_bounds driftTick_bounds injectFaults_bounds healFaults_bounds
  by blast

theorem bounds_invariant_witness:
  "list_all withinBounds (getProcesses calm_store) \<and>
   list_all withinBounds (getProcesses (driftTick env0 calm_store)) \<and>
   list_all withinBounds (getProcesses (snd (injectFaults env0 calm_store))) \<and>
   list_all withinBounds (getProcesses (snd (healFaults env0 calm_store))) \<and>
   map cpu (getProcesses (driftTick env0 calm_store)) = [5] \<and>
   map cpu (getProcesses (snd (injectFaults env0 calm_store))) = [0]"
proof -
  have c: "list_all withinBounds (getProcesses calm_store)"
    by (simp add: withinBounds_def driftBounds_def calm_store_def hot_store_def
        calm_process_def getProcesses_def)
  have d: "map cpu (getProcesses (driftTick env0 calm_store)) = [5]"
    by (simp add: driftTick_def driftProcess_def calm_store_def hot_store_def
        calm_process_def getProcesses_def env0_def val_draw_of prims)
  have i: "map cpu (getProcesses (snd (injectFaults env0 calm_store))) = [0]"
    by (simp add: calm_store_def hot_store_def calm_process_def env0_def
      val_draw_of getProcesses_def isRunning_def injectRound_def injectFaults_def
      crashProcess_def prims addLog_def)
  from bounds_invariant [of env0 calm_store] c d i show ?thesis
    by simp
qed

section \<open>Injection from the initial store\<close>

lemma reflected_process_kept:
  assumes "processes s' = update_kth isRunning i hit (processes s)"
    and "files s' = files s" and "reflected s f"
  shows "reflected s' f"
proof -
  have keep: "list_ex (\<lambda>p. NumId (pid p) = t \<and> status p = st) (getProcesses s')"
    if "list_ex (\<lambda>p. NumId (pid p) = t \<and> status p = st) (getProcesses s)" and "st \<noteq> Running"
    for t st
  proof -
    from that obtain p where p: "p \<in> snd ` set (processes s)" "NumId (pid p) = t" "status p = st"
      by (auto simp: list_ex_iff getProcesses_def)
    with that(2) have "\<not> isRunning p"
      by (simp add: isRunning_def)
    with p(1) have "p \<in> snd ` set (processes s')"
      unfolding assms(1) by (rule update_kth_others)
    with p show ?thesis
      by (force simp: list_ex_iff getProcesses_def)
  qed
  from assms(3) show ?thesis
    by (cases "ftype f") (simp_all add: reflected_def keep getFiles_def assms(2))
qed

lemma reflected_file_kept:
  assumes "files s' = update_kth notCorrupted i hit (files s)"
    and "processes s' = processes s" and "reflected s f"
  shows "reflected s' f"
proof -
  have keep: "list_ex (\<lambda>x. StrId (fid x) = t \<and> corrupted x) (getFiles s')"
    if "list_ex (\<lambda>x. StrId (fid x) = t \<and> corrupted x) (getFiles s)" for t
  proof -
    from that obtain x where x: "x \<in> snd ` set (files s)" "StrId (fid x) = t" "corrupted x"
      by (auto simp: list_ex_iff getFiles_def)
    then have "\<not> notCorrupted x"
      by (simp add: notCorrupted_def)
    with x(1) have "x \<in> snd ` set (files s')"
      unfolding assms(1) by (rule update_kth_others)
    with x show ?thesis
      by (force simp: list_ex_iff getFiles_def)
  qed
  from assms(3) show ?thesis
    by (cases "ftype f") (simp_all add: reflected_def keep getProcesses_def assms(2))
qed

lemma process_round_reflects:
  assumes r: "process_round c st s faults a"
    and c: "(c, st) \<in> {(Crash, Crashed), (Freeze, Frozen), (HighLoad, High_load)}"
    and k: "wellKeyed s" and old: "list_all (reflected s) faults"
  shows "wellKeyed (fst a) \<and> list_all (reflected (fst a)) (snd a)"
proof -
  let ?pool = "filter isRunning (getProcesses s)"
  from r obtain i hit ft where
    i: "i < length ?pool" and
    p: "processes (fst a) = update_kth isRunning i hit (processes s)" and
    f: "files (fst a) = files s" and
    fs: "snd a = faults @ [ft]" and
    ft: "ftype ft = c" "ftargetId ft = NumId (pid (?pool ! i))" and
    hit: "\<And>p. pid (hit p) = pid p" "\<And>p. status (hit p) = st"
    unfolding process_round_def by blast
  have "map (pid \<circ> snd) (processes (fst a)) = map (pid \<circ> snd) (processes s)"
    unfolding p by (rule update_kth_proj) (rule hit)
  with k f have wk: "wellKeyed (fst a)"
    by (simp add: wellKeyed_def getProcesses_def getFiles_def)
  have kept: "list_all (reflected (fst a)) faults"
    using old reflected_process_kept [OF p f] by (auto simp: list_all_iff)
  have "hit (?pool ! i) \<in> snd ` set (processes (fst a))"
    unfolding p getProcesses_def using i [unfolded getProcesses_def] by (rule update_kth_target)
  then have "list_ex (\<lambda>p. NumId (pid p) = ftargetId ft \<and> status p = st) (getProcesses (fst a))"
    using ft(2) hit by (force simp: list_ex_iff getProcesses_def)
  with c ft(1) have "reflected (fst a) ft"
    by (auto simp: reflected_def)
  with wk kept fs show ?thesis
    by simp
qed

lemma file_round_reflects:
  assumes r: "file_round s faults a"
    and k: "wellKeyed s" and old: "list_all (reflected s) faults"
  shows "wellKeyed (fst a) \<and> list_all (reflected (fst a)) (snd a)"
proof -
  let ?pool = "filter notCorrupted (getFiles s)"
  from r obtain i hit ft where
    i: "i < length ?pool" and
    f: "files (fst a) = update_kth notCorrupted i hit (files s)" and
    p: "processes (fst a) = processes s" and
    fs: "snd a = faults @ [ft]" and
    ft: "ftype ft = Corruption" "ftargetId ft = StrId (fid (?pool ! i))" and
    hit: "\<And>x. fid (hit x) = fid x" "\<And>x. corrupted (hit x)"
    unfolding file_round_def by blast
  have "map (fid \<circ> snd) (files (fst a)) = map (fid \<circ> snd) (files s)"
    unfolding f by (rule update_kth_proj) (rule hit)
  with k p have wk: "wellKeyed (fst a)"
    by (simp add: wellKeyed_def getProcesses_def getFiles_def)
  have kept: "list_all (reflected (fst a)) faults"
    using old reflected_file_kept [OF f p] by (auto simp: list_all_iff)
  have "hit (?pool ! i) \<in> snd ` set (files (fst a))"
    unfolding f getFiles_def using i [unfolded getFiles_def] by (rule update_kth_target)
  then have "list_ex (\<lambda>x. StrId (fid x) = ftargetId ft \<and> corrupted x) (getFiles (fst a))"
    using ft(2) hit by (force simp: list_ex_iff getFiles_def)
  with ft(1) have "reflected (fst a) ft"
    by (auto simp: reflected_def)
  with wk kept fs show ?thesis
    by simp
qed

lemma idle_round_reflects:
  assumes "idle_round s faults a" and "wellKeyed s" and "list_all (reflected s) faults"
  shows "wellKeyed (fst a) \<and> list_all (reflected (fst a)) (snd a)"
proof -
  from assms(1) have same: "getProcesses (fst a) = getProcesses s" "getFiles (fst a) = getFiles s"
    "snd a = faults"
    by (simp_all add: idle_round_def getProcesses_def getFiles_def)
  then have "reflected (fst a) = reflected s"
    by (auto simp: reflected_def fun_eq_iff split: fault_type.splits)
  with assms same show ?thesis
    by (simp add: wellKeyed_def)
qed

lemma injectRound_reflects:
  assumes "wellKeyed (fst a) \<and> list_all (reflected (fst a)) (snd a)"
  shows "wellKeyed (fst (injectRound E a)) \<and>
    list_all (reflected (fst (injectRound E a))) (snd (injectRound E a))"
proof -
  obtain s faults where a: "a = (s, faults)" by (cases a)
  from assms have k: "wellKeyed s" and old: "list_all (reflected s) faults"
    by (simp_all add: a)
  let ?a = "injectRound E (s, faults)"
  from injectRound_selected [of E s faults]
  consider "idle_round s faults ?a" | "process_round Crash Crashed s faults ?a"
    | "process_round Freeze Frozen s faults ?a" | "process_round HighLoad High_load s faults ?a"
    | "file_round s faults ?a"
    by (cases "selectedCategory E s") (auto split: if_splits)
  then show ?thesis
    unfolding a
  proof cases
    case 1
    then show "wellKeyed (fst ?a) \<and> list_all (reflected (fst ?a)) (snd ?a)"
      using k old by (rule idle_round_reflects)
  next
    case 2
    then show "wellKeyed (fst ?a) \<and> list_all (reflected (fst ?a)) (snd ?a)"
      using _ k old by (rule process_round_reflects) simp
  next
    case 3
    then show "wellKeyed (fst ?a) \<and> list_all (reflected (fst ?a)) (snd ?a)"
      using _ k old by (rule process_round_reflects) simp
  next
    case 4
    then show "wellKeyed (fst ?a) \<and> list_all (reflected (fst ?a)) (snd ?a)"
      using _ k old by (rule process_round_reflects) simp
  next
    case 5
    then show "wellKeyed (fst ?a) \<and> list_all (reflected (fst ?a)) (snd ?a)"
      using k old by (rule file_round_reflects)
  qed
qed

lemma injectRound_length:
  "length (snd a) \<le> length (snd (injectRound E a))"
  "length (snd (injectRound E a)) \<le> length (snd a) + 1"
proof -
  obtain s faults where a: "a = (s, faults)" by (cases a)
  from injectRound_selected [of E s faults]
  have "length (snd (injectRound E a)) = length (snd a) \<or>
      length (snd (injectRound E a)) = length (snd a) + 1"
    unfolding a
    by (cases "selectedCategory E s")
      (auto simp: idle_round_def process_round_def file_round_def split: if_splits)
  then show "length (snd a) \<le> length (snd (injectRound E a))"
    "length (snd (injectRound E a)) \<le> length (snd a) + 1"
    by auto
qed

lemma injectRound_hits:
  assumes "filter isRunning (getProcesses s) \<noteq> []" and "filter notCorrupted (getFiles s) \<noteq> []"
  shows "length (snd (injectRound E (s, faults))) = length faults + 1"
proof -
  from assms have "poolSize (selectedCategory E s) s \<noteq> 0"
    by (auto simp: poolSize_def selectedCategory_def drawnCategory_def split: fault_type.splits)
  with injectRound_selected [of E s faults] show ?thesis
    by (cases "selectedCategory E s")
      (auto simp: process_round_def file_round_def split: if_splits)
qed

lemma rounds_length:
  "length (snd a) \<le> length (snd ((injectRound E ^^ n) a))"
  "length (snd ((injectRound E ^^ n) a)) \<le> length (snd a) + n"
proof (induction n)
  case 0
  show "length (snd a) \<le> length (snd ((injectRound E ^^ 0) a))"
    "length (snd ((injectRound E ^^ 0) a)) \<le> length (snd a) + 0"
    by simp_all
next
  case (Suc n)
  show "length (snd a) \<le> length (snd ((injectRound E ^^ Suc n) a))"
    using Suc(1) injectRound_length(1) [where a = "(injectRound E ^^ n) a" and E = E] by simp
  show "length (snd ((injectRound E ^^ Suc n) a)) \<le> length (snd a) + Suc n"
    using Suc(2) injectRound_length(2) [where a = "(injectRound E ^^ n) a" and E = E] by simp
qed

lemma keyed_by_own_id:
  assumes "\<forall>(k, v) \<in> set m. key v = k" and "distinct (map fst m)"
  shows "distinct (map key (map snd m))"
proof -
  from assms(1) have eq: "map key (map snd m) = map fst m"
    by (induction m) auto
  show ?thesis unfolding eq by (rule assms(2))
qed

lemma MemStorage_wellKeyed: "wellKeyed (MemStorage E)"
  using MemStorage_fresh(1,2) [of E]
    keyed_by_own_id [of "processes (MemStorage E)" pid]
    keyed_by_own_id [of "files (MemStorage E)" fid]
  by (fastforce simp: wellKeyed_def freshProcesses_def freshFiles_def getProcesses_def getFiles_def)

lemma MemStorage_healthy:
  "list_all isRunning (getProcesses (MemStorage E))"
  "list_all notCorrupted (getFiles (MemStorage E))"
  using MemStorage_fresh(1,2) [of E]
  by (auto simp: freshProcesses_def freshFiles_def getProcesses_def getFiles_def list_all_iff
      isRunning_def notCorrupted_def)

lemma numFaults_range: "nat \<lfloor>fst (Math_random E s) * 3\<rfloor> \<le> 2"
proof -
  have "fst (Math_random E s) * 3 < 3"
    using val_less_one [of "random_at E (random_calls s)"] by (simp add: Math_random_def)
  then have "\<lfloor>fst (Math_random E s) * 3\<rfloor> < 3"
    by (simp add: floor_less_iff)
  then show ?thesis by linarith
qed

lemma injectFaults_reflects:
  assumes k: "wellKeyed s"
    and p: "filter isRunning (getProcesses s) \<noteq> []"
    and f: "filter notCorrupted (getFiles s) \<noteq> []"
  shows "1 \<le> length (fst (injectFaults E s))" and "length (fst (injectFaults E s)) \<le> 3"
    and "list_all (reflected (snd (injectFaults E s))) (fst (injectFaults E s))"
    and "wellKeyed (snd (injectFaults E s))"
proof -
  let ?s1 = "snd (Math_random E s)"
  let ?k = "nat \<lfloor>fst (Math_random E s) * 3\<rfloor>"
  let ?R = "(injectRound E ^^ (?k + 1)) (?s1, [])"
  have g: "getProcesses ?s1 = getProcesses s" "getFiles ?s1 = getFiles s"
    by (simp_all add: snd_prims getProcesses_def getFiles_def)
  have res: "fst (injectFaults E s) = snd ?R"
    by (simp add: injectFaults_def case_prod_beta Let_def)
  have ents: "getProcesses (snd (injectFaults E s)) = getProcesses (fst ?R)"
    "getFiles (snd (injectFaults E s)) = getFiles (fst ?R)"
    by (simp_all add: injectFaults_def case_prod_beta Let_def addLog_store getProcesses_def
        getFiles_def)
  have same: "reflected (snd (injectFaults E s)) = reflected (fst ?R)"
    using ents by (auto simp: reflected_def fun_eq_iff split: fault_type.splits)
  have first: "length (snd (injectRound E (?s1, []))) = 1"
    using injectRound_hits [where s = ?s1 and E = E and faults = "[]"] p f unfolding g by simp
  have "?R = (injectRound E ^^ ?k) (injectRound E (?s1, []))"
    by (simp add: funpow_swap1)
  then have "length (snd (injectRound E (?s1, []))) \<le> length (snd ?R)"
    using rounds_length(1) [where a = "injectRound E (?s1, [])" and E = E and n = ?k] by simp
  with first show "1 \<le> length (fst (injectFaults E s))"
    unfolding res by simp
  have "length (snd ?R) \<le> ?k + 1"
    using rounds_length(2) [where a = "(?s1, [])" and E = E and n = "?k + 1"] by simp
  with numFaults_range [of E s] show "length (fst (injectFaults E s)) \<le> 3"
    unfolding res by simp
  let ?J = "\<lambda>a. wellKeyed (fst a) \<and> list_all (reflected (fst a)) (snd a)"
  have "?J (?s1, [])"
    using k by (simp add: wellKeyed_def g)
  then have J: "?J ?R"
    by (rule funpow_invariant [of ?J, rotated]) (rule injectRound_reflects)
  then show "list_all (reflected (snd (injectFaults E s))) (fst (injectFaults E s))"
    unfolding res same by simp
  from J show "wellKeyed (snd (injectFaults E s))"
    by (simp add: wellKeyed_def ents)
qed


section \<open>The log buffer stays chronological\<close>

lemma chrono_later:
  assumes "monotone_clock E" and "chrono E s"
    and "logs s' = logs s" and "now_calls s \<le> now_calls s'"
  shows "chrono E s'"
proof -
  have "now_at E (now_calls s) \<le> now_at E (now_calls s')"
    using assms(1,4) by (simp add: monotone_clock_def)
  with assms(2,3) show ?thesis
    by (auto simp: chrono_def list_all_iff)
qed

lemma chrono_logged:
  assumes "monotone_clock E" and "chrono E s"
    and "logs s' = logs s" and "now_calls s \<le> now_calls s'"
  shows "chrono E (snd (addLog E l s'))"
  using assms by (intro chrono_addLog chrono_later [of E s s'])

lemma restartCrashed_chrono:
  "monotone_clock E \<Longrightarrow> chrono E (fst c) \<Longrightarrow> chrono E (fst (snd (restartCrashed E p c)))"
  by (cases c)
    (auto simp: restartCrashed_def case_prod_beta Let_def snd_prims intro!: chrono_logged)

lemma unfreeze_chrono:
  "monotone_clock E \<Longrightarrow> chrono E (fst c) \<Longrightarrow> chrono E (fst (snd (unfreeze E p c)))"
  by (cases c)
    (auto simp: unfreeze_def case_prod_beta Let_def snd_prims intro!: chrono_logged)

lemma optimize_chrono:
  "monotone_clock E \<Longrightarrow> chrono E (fst c) \<Longrightarrow> chrono E (fst (snd (optimize E p c)))"
  by (cases c)
    (auto simp: optimize_def case_prod_beta Let_def snd_prims intro!: chrono_logged)

lemma restore_chrono:
  "monotone_clock E \<Longrightarrow> chrono E (fst c) \<Longrightarrow> chrono E (fst (snd (restore E f c)))"
  by (cases c)
    (auto simp: restore_def case_prod_beta Let_def snd_prims intro!: chrono_logged)

lemma driftProcess_chrono:
  "monotone_clock E \<Longrightarrow> chrono E s \<Longrightarrow> chrono E (snd (driftProcess E p s))"
  by (auto simp: driftProcess_def case_prod_beta Let_def snd_prims intro: chrono_later)

lemma driftTick_chrono:
  assumes "monotone_clock E" and "chrono E s"
  shows "chrono E (driftTick E s)"
proof -
  have "chrono E (snd (for_each (driftProcess E) (processes s) s))"
    using assms(2) by (rule for_each_inv [rotated]) (rule driftProcess_chrono [OF assms(1)])
  then show ?thesis
    by (auto simp: driftTick_def case_prod_beta intro: chrono_later [OF assms(1)])
qed

lemma healFaults_chrono:
  assumes "monotone_clock E" and "chrono E s"
  shows "chrono E (snd (healFaults E s))"
proof -
  let ?I = "\<lambda>c::store \<times> heal_result list. chrono E (fst c)"
  let ?r1 = "for_each (restartCrashed E) (processes s) (s, [])"
  let ?r2 = "for_each (unfreeze E) (fst ?r1) (snd ?r1)"
  let ?r3 = "for_each (optimize E) (fst ?r2) (snd ?r2)"
  let ?r4 = "for_each (restore E) (files s) (snd ?r3)"
  have "?I (s, [])"
    using assms(2) by simp
  then have "?I (snd ?r1)"
    by (rule for_each_inv [of ?I, rotated]) (rule restartCrashed_chrono [OF assms(1)])
  then have "?I (snd ?r2)"
    by (rule for_each_inv [of ?I, rotated]) (rule unfreeze_chrono [OF assms(1)])
  then have "?I (snd ?r3)"
    by (rule for_each_inv [of ?I, rotated]) (rule optimize_chrono [OF assms(1)])
  then have "?I (snd ?r4)"
    by (rule for_each_inv [of ?I, rotated]) (rule restore_chrono [OF assms(1)])
  then show ?thesis
    by (auto simp: healFaults_def case_prod_beta Let_def
        intro!: chrono_logged [OF assms(1)] intro: chrono_later [OF assms(1)])
qed

lemma injectRound_chrono:
  assumes "monotone_clock E" and "chrono E (fst a)"
  shows "chrono E (fst (injectRound E a))"
  using assms(2)
  by (cases a)
    (auto simp: injectRound_def crashProcess_def freezeProcess_def loadProcess_def
      corruptFile_def case_prod_beta Let_def snd_prims
      intro!: chrono_logged [OF assms(1)] intro: chrono_later [OF assms(1)])

lemma injectFaults_chrono:
  assumes "monotone_clock E" and "chrono E s"
  shows "chrono E (snd (injectFaults E s))"
proof -
  let ?I = "\<lambda>a::store \<times> fault list. chrono E (fst a)"
  let ?R = "(injectRound E ^^ (nat \<lfloor>fst (Math_random E s) * 3\<rfloor> + 1)) (snd (Math_random E s), [])"
  have "?I (snd (Math_random E s), [])"
    using assms(2) by (auto simp: snd_prims intro: chrono_later [OF assms(1)])
  then have "?I ?R"
    by (rule funpow_invariant [of ?I, rotated]) (rule injectRound_chrono [OF assms(1)])
  then show ?thesis
    by (auto simp: injectFaults_def case_prod_beta Let_def
        intro!: chrono_logged [OF assms(1)])
qed

lemma repairFile_chrono:
  assumes "monotone_clock E" and "chrono E s"
  shows "chrono E (snd (repairFile E i s))"
  using assms(2)
  by (auto simp: repairFile_def case_prod_beta Let_def snd_prims split: option.splits
      intro!: chrono_logged [OF assms(1)])

lemma getHealth_chrono:
  assumes "monotone_clock E" and "chrono E s"
  shows "chrono E (snd (getHealth E s))"
  using assms(2)
  by (auto simp: getHealth_def case_prod_beta Let_def snd_prims intro: chrono_later [OF assms(1)])

lemma fold_invariant:
  assumes "\<And>x s. I s \<Longrightarrow> I (f x s)"
  shows "I s \<Longrightarrow> I (fold f xs s)"
  by (induction xs arbitrary: s) (simp_all add: assms)

lemma MemStorage_chrono:
  assumes "monotone_clock E"
  shows "chrono E (MemStorage E)"
proof -
  let ?s0 = "\<lparr>processes = [], files = [], logs = [], initialized = False, nextPid = 1001,
    random_calls = 0, now_calls = 0, uuid_calls = 0\<rparr>"
  have p: "chrono E (initProcess E i s)" if "chrono E s" for i s
    using that
    by (auto simp: initProcess_def case_prod_beta Let_def snd_prims
        intro: chrono_later [OF assms])
  have f: "chrono E (initFile E tpl s)" if "chrono E s" for tpl s
    using that
    by (auto simp: initFile_def case_prod_beta Let_def snd_prims
        intro: chrono_later [OF assms])
  have "chrono E ?s0"
    by (simp add: chrono_def)
  then have "chrono E (fold (initProcess E) [0..<6] ?s0)"
    by (rule fold_invariant [of "chrono E", rotated]) (rule p)
  then have "chrono E (fold (initFile E) FILE_TEMPLATES (fold (initProcess E) [0..<6] ?s0))"
    by (rule fold_invariant [of "chrono E", rotated]) (rule f)
  then show ?thesis
    by (auto simp: MemStorage_def initializeSystem_def case_prod_beta Let_def
        intro!: chrono_logged [OF assms] intro: chrono_later [OF assms])
qed

lemma reachable_chrono:
  assumes "monotone_clock E" and "reachable E s"
  shows "chrono E s"
  using assms(2)
proof induction
  case start
  show ?case by (rule MemStorage_chrono [OF assms(1)])
next
  case (drift s)
  then show ?case by (simp add: driftTick_chrono [OF assms(1)])
next
  case (inject s)
  then show ?case by (simp add: injectFaults_chrono [OF assms(1)])
next
  case (heal s)
  then show ?case by (simp add: healFaults_chrono [OF assms(1)])
next
  case (repair s i)
  then show ?case by (simp add: repairFile_chrono [OF assms(1)])
next
  case (log s l)
  then show ?case by (simp add: chrono_addLog [OF assms(1)])
next
  case (health s)
  then show ?case by (simp add: getHealth_chrono [OF assms(1)])
next
  case (updateProcess s ps)
  then show ?case by (simp add: chrono_def)
next
  case (updateFile s fs)
  then show ?case by (simp add: chrono_def)
qed

text \<open>
  C5, as the claim states it, fails: the entries are stamped with \<^verbatim>\<open>Date.now()\<close>,
  the wall clock, and nothing orders its readings. With a clock that reads 1000 and then
  999, two addLog calls on an empty buffer make getLogs return the stamps 999, 1000:
  newest first, but increasing.
\<close>

theorem getLogs_backwards_clock_counterexample:
  "map timestamp (getLogs (snd (addLog env_back check_log (snd (addLog env_back check_log hot_store)))))
     = [999, 1000] \<and>
   \<not> sorted_wrt (\<lambda>a b. a \<ge> b)
     (map timestamp
       (getLogs (snd (addLog env_back check_log (snd (addLog env_back check_log hot_store))))))"
  by (simp add: getLogs_def addLog_def randomUUID_def Date_now_def Let_def env_back_def env0_def
      check_log_def hot_store_def)

text \<open>
  C5, amended. After addLog the buffer holds at most 100 entries: the old buffer followed
  by the new entry, with the oldest entries dropped. getLogs returns at most 50 entries,
  the newest first. Provided the clock never runs backwards (no call of
  \<^verbatim>\<open>Date.now()\<close> returns an earlier time than a call before it), the timestamps
  that getLogs returns are non-increasing: in every store the engine can reach, and in
  any store whose buffer is in chronological order, which addLog keeps so.
\<close>

theorem log_buffer_contract:
  "length (logs (snd (addLog E l s))) \<le> 100 \<and>
   logs (snd (addLog E l s)) = drop (length (logs s) + 1 - 100) (logs s @ [fst (addLog E l s)]) \<and>
   length (getLogs s) \<le> 50 \<and>
   getLogs s = take 50 (rev (logs s)) \<and>
   (monotone_clock E \<and> chrono E s \<longrightarrow>
      chrono E (snd (addLog E l s)) \<and> sorted_wrt (\<lambda>a b. a \<ge> b) (map timestamp (getLogs s))) \<and>
   (monotone_clock E \<and> reachable E s \<longrightarrow>
      sorted_wrt (\<lambda>a b. a \<ge> b) (map timestamp (getLogs s)))"
proof -
  have desc: "sorted_wrt (\<lambda>a b. a \<ge> b) (map timestamp (getLogs s))" if "chrono E s"
  proof -
    from that have "sorted (map timestamp (drop (length (logs s) - 50) (logs s)))"
      by (simp only: chrono_def drop_map [symmetric] sorted_wrt_drop)
    then show ?thesis
      by (simp add: getLogs_def rev_map [symmetric] sorted_wrt_rev)
  qed
  have cap: "length (logs (snd (addLog E l s))) \<le> 100"
    by (simp add: addLog_store appended_def)
  have suffix: "logs (snd (addLog E l s)) =
      drop (length (logs s) + 1 - 100) (logs s @ [fst (addLog E l s)])"
    by (simp add: addLog_store appended_def)
  have read: "length (getLogs s) \<le> 50"
    by (simp add: getLogs_newest_first)
  from cap suffix read getLogs_newest_first desc chrono_addLog reachable_chrono show ?thesis
    by blast
qed

theorem log_buffer_contract_witness:
  "monotone_clock env0 \<and> chrono env0 logged_store \<and>
   chrono env0 (snd (addLog env0 \<lparr>ltype = Info, event = ''e'', description = ''d''\<rparr> logged_store)) \<and>
   map timestamp (getLogs logged_store) = [1001, 1000] \<and>
   sorted_wrt (\<lambda>a b. a \<ge> b) (map timestamp (getLogs logged_store)) \<and>
   reachable env0 (snd (healFaults env0 (snd (injectFaults env0 (MemStorage env0))))) \<and>
   sorted_wrt (\<lambda>a b. a \<ge> b)
     (map timestamp (getLogs (snd (healFaults env0 (snd (injectFaults env0 (MemStorage env0)))))))"
proof -
  have c: "chrono env0 logged_store"
    by (simp add: chrono_def logged_store_def hot_store_def env0_def)
  have g: "map timestamp (getLogs logged_store) = [1001, 1000]"
    by (simp add: getLogs_def logged_store_def hot_store_def)
  have r: "reachable env0 (snd (healFaults env0 (snd (injectFaults env0 (MemStorage env0)))))"
    by (intro reachable.intros)
  from log_buffer_contract [of env0 "\<lparr>ltype = Info, event = ''e'', description = ''d''\<rparr>" logged_store]
    log_buffer_contract [of env0 "\<lparr>ltype = Info, event = ''e'', description = ''d''\<rparr>"
      "snd (healFaults env0 (snd (injectFaults env0 (MemStorage env0))))"]
    monotone_clock_env0 c g r
  show ?thesis by blast
qed

section \<open>The files of the initial store\<close>

lemma initFile_keys:
  "map fst (files (initFile E tpl s)) =
     (if uuid_at E (uuid_calls s) \<in> fst ` set (files s) then map fst (files s)
      else map fst (files s) @ [uuid_at E (uuid_calls s)])"
  "uuid_calls (initFile E tpl s) = uuid_calls s + 2"
proof -
  have k: "map fst (map_set k v m) = (if k \<in> fst ` set m then map fst m else map fst m @ [k])"
    for k :: string and v :: system_file and m
    by (induction m) force+
  show "map fst (files (initFile E tpl s)) =
     (if uuid_at E (uuid_calls s) \<in> fst ` set (files s) then map fst (files s)
      else map fst (files s) @ [uuid_at E (uuid_calls s)])"
    by (cases tpl) (simp add: initFile_def case_prod_beta snd_prims k randomUUID_def)
  show "uuid_calls (initFile E tpl s) = uuid_calls s + 2"
    by (cases tpl) (simp add: initFile_def case_prod_beta snd_prims)
qed

lemma initFiles_keys:
  "distinct (map fst (files s) @ map (\<lambda>i. uuid_at E (uuid_calls s + 2 * i)) [0..<length tpls]) \<Longrightarrow>
     map fst (files (fold (initFile E) tpls s)) =
       map fst (files s) @ map (\<lambda>i. uuid_at E (uuid_calls s + 2 * i)) [0..<length tpls]"
proof (induction tpls arbitrary: s)
  case Nil
  show ?case by simp
next
  case (Cons t tpls)
  let ?s' = "initFile E t s"
  have "[0..<Suc (length tpls)] = 0 # map Suc [0..<length tpls]"
    by (simp only: map_Suc_upt upt_conv_Cons [OF zero_less_Suc])
  then have up: "[0..<length (t # tpls)] = 0 # map Suc [0..<length tpls]"
    by (simp del: upt_Suc)
  from Cons.prems have new: "uuid_at E (uuid_calls s) \<notin> fst ` set (files s)"
    unfolding up by auto
  then have keys: "map fst (files ?s') = map fst (files s) @ [uuid_at E (uuid_calls s)]"
    by (simp add: initFile_keys)
  have shift: "map (\<lambda>i. uuid_at E (uuid_calls ?s' + 2 * i)) [0..<length tpls] =
      map (\<lambda>i. uuid_at E (uuid_calls s + 2 * i)) (map Suc [0..<length tpls])"
    by (simp add: initFile_keys comp_def)
  have "distinct (map fst (files ?s') @ map (\<lambda>i. uuid_at E (uuid_calls ?s' + 2 * i)) [0..<length tpls])"
    using Cons.prems unfolding keys shift up by simp
  from Cons.IH [OF this] show ?case
    unfolding keys shift up by simp
qed

lemma initProcesses_uuid_calls: "uuid_calls (fold (initProcess E) xs s) = uuid_calls s"
  by (induction xs arbitrary: s) (simp_all add: initProcess_def case_prod_beta Let_def snd_prims)

lemma MemStorage_eight_files:
  assumes "distinct (map (\<lambda>i. uuid_at E (2 * i)) [0..<8])"
  shows "length (getFiles (MemStorage E)) = 8"
proof -
  let ?s0 = "\<lparr>processes = [], files = [], logs = [], initialized = False, nextPid = 1001,
    random_calls = 0, now_calls = 0, uuid_calls = 0\<rparr>"
  let ?s1 = "fold (initProcess E) [0..<6] ?s0"
  have f: "files ?s1 = []" and u: "uuid_calls ?s1 = 0"
    using initProcesses_fresh [of ?s0 E "[0..<6]"]
    by (simp_all add: freshProcesses_def initProcesses_uuid_calls)
  have n: "length FILE_TEMPLATES = 8"
    by (simp add: FILE_TEMPLATES_def)
  have "map fst (files (fold (initFile E) FILE_TEMPLATES ?s1)) =
      map fst (files ?s1) @ map (\<lambda>i. uuid_at E (uuid_calls ?s1 + 2 * i)) [0..<length FILE_TEMPLATES]"
    by (rule initFiles_keys) (simp add: f u n assms)
  then have "length (map fst (files (fold (initFile E) FILE_TEMPLATES ?s1))) = 8"
    by (simp add: f n)
  then show ?thesis
    by (simp add: MemStorage_def initializeSystem_def Let_def case_prod_beta addLog_store
        getFiles_def)
qed

lemma env1_uuids: "distinct (map (\<lambda>i. uuid_at env1 (2 * i)) [0..<8])"
  by (simp add: env1_def env0_def hex_digit_def upt_rec)

text \<open>
  C9. The initial store has 6 processes, all running, and its files are all uncorrupted;
  there are 8 of them when the eight ids drawn for them differ. One call of
  injectFaults on it returns between 1 and 3 faults, and in the store it leaves every
  returned fault is reflected: the process with the fault's target id is crashed, frozen
  or under high load as the category says, resp. the file with that id is corrupted. Ids
  are unique, so the entity a fault names is determined.
\<close>

theorem injectFaults_from_default:
  "length (getProcesses (MemStorage E)) = 6 \<and>
   list_all isRunning (getProcesses (MemStorage E)) \<and>
   list_all notCorrupted (getFiles (MemStorage E)) \<and>
   (distinct (map (\<lambda>i. uuid_at E (2 * i)) [0..<8]) \<longrightarrow> length (getFiles (MemStorage E)) = 8) \<and>
   1 \<le> length (fst (injectFaults E (MemStorage E))) \<and>
   length (fst (injectFaults E (MemStorage E))) \<le> 3 \<and>
   list_all (reflected (snd (injectFaults E (MemStorage E)))) (fst (injectFaults E (MemStorage E))) \<and>
   wellKeyed (snd (injectFaults E (MemStorage E)))"
proof -
  have six: "length (getProcesses (MemStorage E)) = 6"
    using MemStorage_fresh(3) [of E] by (simp add: getProcesses_def)
  then have "getProcesses (MemStorage E) \<noteq> []"
    by auto
  then have p: "filter isRunning (getProcesses (MemStorage E)) \<noteq> []"
    using MemStorage_healthy(1) [of E] by (simp add: list_all_iff filter_empty_conv)
  have "getFiles (MemStorage E) \<noteq> []"
    using MemStorage_fresh(4) [of E] by (simp add: getFiles_def)
  then have f: "filter notCorrupted (getFiles (MemStorage E)) \<noteq> []"
    using MemStorage_healthy(2) [of E] by (simp add: list_all_iff filter_empty_conv)
  from six MemStorage_healthy [of E] MemStorage_eight_files [of E]
    injectFaults_reflects [OF MemStorage_wellKeyed p f, of E]
  show ?thesis by blast
qed

theorem injectFaults_from_default_witness:
  "distinct (map (\<lambda>i. uuid_at env1 (2 * i)) [0..<8]) \<and>
   length (getProcesses (MemStorage env1)) = 6 \<and>
   length (getFiles (MemStorage env1)) = 8 \<and>
   1 \<le> length (fst (injectFaults env1 (MemStorage env1))) \<and>
   length (fst (injectFaults env1 (MemStorage env1))) \<le> 3 \<and>
   list_all (reflected (snd (injectFaults env1 (MemStorage env1))))
     (fst (injectFaults env1 (MemStorage env1)))"
  using injectFaults_from_default [of env1] env1_uuids by blast

end
